theory Spec2Isabelle
  imports Main "HOL-Library.Sublist"
begin

section \<open>The event-hook registry of \<^verbatim>\<open>src/lib/utils/hooks.ts\<close>\<close>

text \<open>
  The class \<^verbatim>\<open>EventHooks<T, R>\<close> owns one private field,
  \<^verbatim>\<open>_listeners: Map<keyof T, { listener: Function; once?: boolean; order: number }[]>\<close>,
  and four methods: \<^verbatim>\<open>on\<close>, \<^verbatim>\<open>once\<close>, \<^verbatim>\<open>off\<close> and \<^verbatim>\<open>emit\<close>.

  Modelling decisions.
  \<^item> A JavaScript function object is compared with \<^verbatim>\<open>===\<close>, that is by reference.
    A callback is therefore a reference \<open>fn_ref\<close> (a natural number); what a call of it
    does is looked up in a table \<open>cb\<close> that the dispatching operations take as a
    parameter. Two references may have the same behaviour and are still distinct.
  \<^item> A callback runs arbitrary code: it may return a value or throw, it may change
    variables it closes over, and it may call \<^verbatim>\<open>on\<close>, \<^verbatim>\<open>once\<close>,
    \<^verbatim>\<open>off\<close> and \<^verbatim>\<open>emit\<close> of the very registry that is dispatching to it.
    A call is a function from the state before the call to an outcome and the state
    after it. The state holds the registry's map and, in the field \<open>world\<close>, everything
    else a callback can read or write.
  \<^item> The \<^verbatim>\<open>Map\<close> is a partial function from event keys to arrays; an array is a list.
    Value semantics is exact here: every array stored in the map is referenced by
    the map alone. \<^verbatim>\<open>on\<close> and \<^verbatim>\<open>once\<close> store a fresh copy
    (\<^verbatim>\<open>.slice()\<close>); \<^verbatim>\<open>emit\<close> iterates over a fresh copy (\<^verbatim>\<open>.slice()\<close>) that
    is local to the call and stores another fresh array (\<^verbatim>\<open>.filter(...)\<close>);
    \<^verbatim>\<open>off\<close> splices the stored array in place, which no other reference aliases.
  \<^item> \<^verbatim>\<open>once?: boolean\<close> is an optional field: \<^verbatim>\<open>on\<close> leaves it out, \<^verbatim>\<open>once\<close>
    sets it to \<^verbatim>\<open>true\<close>. It is a \<open>bool option\<close>, named \<open>once_opt\<close> because
    \<open>once\<close> is the method; the field \<^verbatim>\<open>_listeners\<close> is \<open>listeners\<close>.
  \<^item> \<^verbatim>\<open>order: number\<close> is modelled as an integer, the type the specification gives
    it (a signed integer priority); fractional values and NaN are outside the model.
\<close>

subsection \<open>Data\<close>

type_synonym fn_ref = nat

record lrec =
  listener :: fn_ref
  once_opt :: "bool option"
  order :: int

record ('e, 'w) state =
  listeners :: "'e \<rightharpoonup> lrec list"
  world :: 'w

text \<open>A value thrown by a callback.\<close>

datatype error = Thrown string

text \<open>
  What calling the function behind a reference does: given the arguments and the state,
  it returns (\<open>Inr\<close>) or throws (\<open>Inl\<close>), and leaves a state behind.
\<close>

type_synonym ('e, 'a, 'r, 'w) calls =
  "fn_ref \<Rightarrow> 'a \<Rightarrow> ('e, 'w) state \<Rightarrow> (error + 'r) \<times> ('e, 'w) state"

text \<open>\<^verbatim>\<open>private _listeners = new Map()\<close>: a registry is created empty.\<close>

definition new_hooks :: "'w \<Rightarrow> ('e, 'w) state" where
  "new_hooks w = \<lparr>listeners = Map.empty, world = w\<rparr>"

subsection \<open>Array primitives\<close>

text \<open>
  \<^verbatim>\<open>Array.prototype.findIndex\<close>: the index of the first element that satisfies the
  predicate, or \<open>-1\<close>.
\<close>

fun findIndex :: "('a \<Rightarrow> bool) \<Rightarrow> 'a list \<Rightarrow> int" where
  "findIndex p [] = - 1"
| "findIndex p (x # xs) =
     (if p x then 0 else (let i = findIndex p xs in if i = - 1 then - 1 else i + 1))"

text \<open>
  \<^verbatim>\<open>arr.splice(start, deleteCount, ...items)\<close> for \<open>0 \<le> start \<le> arr.length\<close>, the only
  way it is called: the array after the call.
\<close>

definition splice_arr :: "'a list \<Rightarrow> nat \<Rightarrow> nat \<Rightarrow> 'a list \<Rightarrow> 'a list" where
  "splice_arr arr start deleteCount items =
     take start arr @ items @ drop (start + deleteCount) arr"

text \<open>
  Modelled from the spec: \<^verbatim>\<open>insertOrderSorted\<close> is imported from \<^verbatim>\<open>./array\<close>, a module
  that is not among the sources. The specification describes it (section 4.1, ordering
  algorithm detail): the new record is placed at the first position \<open>i\<close> such that the
  existing record at \<open>i\<close> has \<open>order\<close> strictly greater than the new record's
  \<open>order\<close>; if none exists, it is appended at the end. The function changes its
  argument in place; the model returns the array after the call.
\<close>

definition insertOrderSorted :: "lrec list \<Rightarrow> lrec \<Rightarrow> lrec list" where
  "insertOrderSorted arr item =
     (let index = findIndex (\<lambda>v. order v > order item) arr
      in splice_arr arr (if index = - 1 then length arr else nat index) 0 [item])"

subsection \<open>The four methods\<close>

text \<open>\<^verbatim>\<open>this._listeners.get(event) || []\<close>: an array is truthy, \<^verbatim>\<open>undefined\<close> is not.\<close>

definition get_or_empty :: "('e, 'w) state \<Rightarrow> 'e \<Rightarrow> lrec list" where
  "get_or_empty s event = (case listeners s event of None \<Rightarrow> [] | Some l \<Rightarrow> l)"

text \<open>
  \<^verbatim>\<open>on(event, listener, order = 0)\<close>. The default parameter is an optional argument:
  \<open>None\<close> is the call that leaves \<open>order\<close> out.
\<close>

definition default_order :: "int option \<Rightarrow> int" where
  "default_order ord = (case ord of None \<Rightarrow> 0 | Some n \<Rightarrow> n)"

definition on :: "'e \<Rightarrow> fn_ref \<Rightarrow> int option \<Rightarrow> ('e, 'w) state \<Rightarrow> ('e, 'w) state" where
  "on event f ord s =
     (let list = get_or_empty s event;
          list = insertOrderSorted list
            \<lparr>listener = f, once_opt = None,
             order = default_order ord\<rparr>
      in s\<lparr>listeners := (listeners s)(event \<mapsto> list)\<rparr>)"

definition once :: "'e \<Rightarrow> fn_ref \<Rightarrow> int option \<Rightarrow> ('e, 'w) state \<Rightarrow> ('e, 'w) state" where
  "once event f ord s =
     (let list = get_or_empty s event;
          list = insertOrderSorted list
            \<lparr>listener = f, once_opt = Some True,
             order = default_order ord\<rparr>
      in s\<lparr>listeners := (listeners s)(event \<mapsto> list)\<rparr>)"

text \<open>
  \<^verbatim>\<open>off(event, listener)\<close>: nothing happens for an event without an entry, nor when
  \<^verbatim>\<open>findIndex\<close> returns \<open>-1\<close>; otherwise one element is spliced out of the stored
  array.
\<close>

definition off :: "'e \<Rightarrow> fn_ref \<Rightarrow> ('e, 'w) state \<Rightarrow> ('e, 'w) state" where
  "off event f s =
     (case listeners s event of
        None \<Rightarrow> s
      | Some ls \<Rightarrow>
          (let index = findIndex (\<lambda>lo. listener lo = f) ls
           in if index > - 1
              then s\<lparr>listeners := (listeners s)(event \<mapsto> splice_arr ls (nat index) 1 [])\<rparr>
              else s))"

text \<open>
  \<^verbatim>\<open>listeners.map(({ listener }) => listener(...args))\<close>: the callbacks are called from
  left to right, each in the state the one before it left; the first one that throws
  ends the loop, and its exception is the outcome.
\<close>

fun map_listeners ::
  "('e, 'a, 'r, 'w) calls \<Rightarrow> 'a \<Rightarrow> lrec list \<Rightarrow> ('e, 'w) state
     \<Rightarrow> (error + 'r list) \<times> ('e, 'w) state" where
  "map_listeners cb args [] s = (Inr [], s)"
| "map_listeners cb args (lo # los) s =
     (case cb (listener lo) args s of
        (Inl ex, s') \<Rightarrow> (Inl ex, s')
      | (Inr r, s') \<Rightarrow>
          (case map_listeners cb args los s' of
             (Inl ex, s'') \<Rightarrow> (Inl ex, s'')
           | (Inr rs, s'') \<Rightarrow> (Inr (r # rs), s'')))"

text \<open>
  \<^verbatim>\<open>emit(event, ...args)\<close>: the snapshot \<^verbatim>\<open>this._listeners.get(event)?.slice() || []\<close>,
  then the stored array is replaced by the snapshot without its \<^verbatim>\<open>once\<close> records
  (\<^verbatim>\<open>!once\<close> is true for a missing field and for \<^verbatim>\<open>false\<close>), then the callbacks of
  the snapshot are called.
\<close>

definition emit ::
  "('e, 'a, 'r, 'w) calls \<Rightarrow> 'e \<Rightarrow> 'a \<Rightarrow> ('e, 'w) state
     \<Rightarrow> (error + 'r list) \<times> ('e, 'w) state" where
  "emit cb event args s =
     (let ls = get_or_empty s event;
          s' = s\<lparr>listeners := (listeners s)(event \<mapsto>
                 filter (\<lambda>lo. once_opt lo \<noteq> Some True) ls)\<rparr>
      in map_listeners cb args ls s')"

subsection \<open>Observing a dispatch\<close>

text \<open>
  The references that the loop of \<open>map_listeners\<close> calls, in the order of the calls:
  the loop stops behind the first callback that throws.
\<close>

fun invoked ::
  "('e, 'a, 'r, 'w) calls \<Rightarrow> 'a \<Rightarrow> lrec list \<Rightarrow> ('e, 'w) state \<Rightarrow> fn_ref list" where
  "invoked cb args [] s = []"
| "invoked cb args (lo # los) s =
     listener lo #
       (case cb (listener lo) args s of
          (Inl ex, s') \<Rightarrow> []
        | (Inr r, s') \<Rightarrow> invoked cb args los s')"

text \<open>The references one call of \<open>emit\<close> calls.\<close>

definition emit_invoked ::
  "('e, 'a, 'r, 'w) calls \<Rightarrow> 'e \<Rightarrow> 'a \<Rightarrow> ('e, 'w) state \<Rightarrow> fn_ref list" where
  "emit_invoked cb event args s =
     (let ls = get_or_empty s event;
          s' = s\<lparr>listeners := (listeners s)(event \<mapsto>
                 filter (\<lambda>lo. once_opt lo \<noteq> Some True) ls)\<rparr>
      in invoked cb args ls s')"

subsection \<open>Sequences of operations\<close>

text \<open>
  One call of a method by a client of the registry, and a sequence of such calls. A
  client that catches what \<open>emit\<close> throws goes on with the state the failed call left.
\<close>

datatype ('e, 'a) call =
    On 'e fn_ref "int option"
  | Once 'e fn_ref "int option"
  | Off 'e fn_ref
  | Emit 'e 'a

fun perform ::
  "('e, 'a, 'r, 'w) calls \<Rightarrow> ('e, 'a) call \<Rightarrow> ('e, 'w) state \<Rightarrow> ('e, 'w) state" where
  "perform cb (On event f ord) s = on event f ord s"
| "perform cb (Once event f ord) s = once event f ord s"
| "perform cb (Off event f) s = off event f s"
| "perform cb (Emit event args) s = snd (emit cb event args s)"

fun perform_all ::
  "('e, 'a, 'r, 'w) calls \<Rightarrow> ('e, 'a) call list \<Rightarrow> ('e, 'w) state \<Rightarrow> ('e, 'w) state" where
  "perform_all cb [] s = s"
| "perform_all cb (c # cs) s = perform_all cb cs (perform cb c s)"

text \<open>The invariant: every stored sequence is in non-decreasing \<open>order\<close>.\<close>

definition ordered :: "('e, 'w) state \<Rightarrow> bool" where
  "ordered s = (\<forall>event. sorted (map order (get_or_empty s event)))"

subsection \<open>Example callbacks and records\<close>

text \<open>The two records the methods build: \<^verbatim>\<open>{ listener, order }\<close> and
  \<^verbatim>\<open>{ listener, once: true, order }\<close>.\<close>

definition rec_on :: "fn_ref \<Rightarrow> int \<Rightarrow> lrec" where
  "rec_on f n = \<lparr>listener = f, once_opt = None, order = n\<rparr>"

definition rec_once :: "fn_ref \<Rightarrow> int \<Rightarrow> lrec" where
  "rec_once f n = \<lparr>listener = f, once_opt = Some True, order = n\<rparr>"

text \<open>
  The callbacks of the specification's scenario: reference \<open>0\<close> is
  \<^verbatim>\<open>f => f + 1\<close>, every other reference is \<^verbatim>\<open>f => f * 2\<close>.
\<close>

definition plus_one_times_two :: "(string, int, int, unit) calls" where
  "plus_one_times_two f args s =
     (if f = 0 then (Inr (args + 1), s) else (Inr (args * 2), s))"

text \<open>
  A registry with three subscriptions to \<open>''x''\<close>: reference \<open>7\<close> twice, reference
  \<open>8\<close> between them.
\<close>

definition three_subs :: "(string, unit) state" where
  "three_subs =
     on ''x'' 7 (Some 2) (on ''x'' 8 (Some 1) (on ''x'' 7 None (new_hooks ())))"

text \<open>
  Callbacks that call back into the registry while \<open>''x''\<close> is dispatched: reference
  \<open>0\<close> subscribes itself again with \<^verbatim>\<open>once\<close>, reference \<open>1\<close> unsubscribes
  reference \<open>2\<close>, every other reference leaves the registry alone.
\<close>

definition reentrant :: "(string, int, int, unit) calls" where
  "reentrant f args s =
     (if f = 0 then (Inr args, once ''x'' 0 None s)
      else if f = 1 then (Inr (args + 1), off ''x'' 2 s)
      else (Inr (args * 2), s))"

text \<open>Reference \<open>1\<close> throws, every other reference returns.\<close>

definition second_throws :: "(string, int, int, unit) calls" where
  "second_throws f args s =
     (if f = 1 then (Inl (Thrown ''boom''), s) else (Inr (args + int f), s))"

text \<open>
  What a theorem about a whole dispatch asks of the callbacks: a callback reaches the
  registry through the four methods only, so it leaves an ordered registry ordered.
\<close>

definition preserves_order :: "('e, 'a, 'r, 'w) calls \<Rightarrow> bool" where
  "preserves_order cb = (\<forall>l a w. ordered w \<longrightarrow> ordered (snd (cb l a w)))"




text \<open>
  Callbacks that call methods of the registry while they are dispatched to. The calls
  that subscribe and unsubscribe are \<^verbatim>\<open>on\<close>, \<^verbatim>\<open>once\<close> and \<^verbatim>\<open>off\<close>.
\<close>

fun is_mutation :: "('e, 'a) call \<Rightarrow> bool" where
  "is_mutation (On event f ord) = True"
| "is_mutation (Once event f ord) = True"
| "is_mutation (Off event f) = True"
| "is_mutation (Emit event args) = False"

text \<open>
  The callback behind reference \<open>l\<close> first makes the calls \<open>muts l\<close> on the registry
  and then does what \<open>cb l\<close> does.
\<close>

definition with_calls ::
  "('e, 'a, 'r, 'w) calls \<Rightarrow> (fn_ref \<Rightarrow> ('e, 'a) call list) \<Rightarrow> ('e, 'a, 'r, 'w) calls" where
  "with_calls cb muts l args s = cb l args (perform_all cb (muts l) s)"

text \<open>
  The specification's last scenario: the callback behind reference \<open>0\<close> calls
  \<^verbatim>\<open>H.off("x", otherListener)\<close>, the other listener being reference \<open>1\<close>.
\<close>

definition unsubscribes_other :: "fn_ref \<Rightarrow> (string, int) call list" where
  "unsubscribes_other l = (if l = 0 then [Off ''x'' 1] else [])"

definition two_subs :: "(string, unit) state" where
  "two_subs = on ''x'' 1 (Some 1) (on ''x'' 0 None (new_hooks ()))"

text \<open>
  A one-shot callback that subscribes itself again while it runs: reference \<open>0\<close> calls
  \<^verbatim>\<open>H.once("x", itself)\<close>. The registry below holds it as a one-shot record, before
  a permanent record of reference \<open>1\<close>.
\<close>

definition resubscribes_itself :: "fn_ref \<Rightarrow> (string, int) call list" where
  "resubscribes_itself l = (if l = 0 then [Once ''x'' 0 None] else [])"

definition once_and_on :: "(string, unit) state" where
  "once_and_on = on ''x'' 1 (Some 1) (once ''x'' 0 None (new_hooks ()))"

text \<open>
  A callback that reports what it finds: it returns the sequence that is stored for the
  event at the time it is called, and changes nothing.
\<close>

definition observe :: "'e \<Rightarrow> ('e, 'a, lrec list, 'w) calls" where
  "observe e l args s = (Inr (get_or_empty s e), s)"

text \<open>A callback whose outcome and whose effect on the world do not depend on the registry.\<close>

definition registry_blind :: "('e, 'a, 'r, 'w) calls \<Rightarrow> 'a \<Rightarrow> bool" where
  "registry_blind cb args =
     (\<forall>l w w'. world w = world w' \<longrightarrow>
        fst (cb l args w) = fst (cb l args w') \<and>
        world (snd (cb l args w)) = world (snd (cb l args w')))"

text \<open>
  Callbacks written against the registry's interface: the body of the callback behind
  reference \<open>l\<close>, called with \<open>args\<close>, makes the calls \<open>fst (body l args)\<close> on the
  registry (nested \<^verbatim>\<open>emit\<close> calls among them, each in a \<^verbatim>\<open>try\<close> block of its own) and
  then returns or throws \<open>snd (body l args)\<close>. The first argument bounds the depth of
  nested calls, as the call stack does; at depth \<open>0\<close> a call throws at once.
\<close>

primrec scripted ::
  "nat \<Rightarrow> (fn_ref \<Rightarrow> 'a \<Rightarrow> ('e, 'a) call list \<times> (error + 'r)) \<Rightarrow> ('e, 'a, 'r, 'w) calls" where
  "scripted 0 body l args s = (Inl (Thrown ''Maximum call stack size exceeded''), s)"
| "scripted (Suc n) body l args s =
     (snd (body l args), perform_all (scripted n body) (fst (body l args)) s)"

text \<open>
  The callback behind reference \<open>0\<close> subscribes reference \<open>9\<close> to another event,
  \<open>''y''\<close>, while it runs.
\<close>

definition subscribes_elsewhere :: "fn_ref \<Rightarrow> (string, int) call list" where
  "subscribes_elsewhere l = (if l = 0 then [On ''y'' 9 None] else [])"



section \<open>Array primitives: what they compute\<close>

lemma findIndex_ge: "- 1 \<le> findIndex p xs"
  by (induction xs) (auto simp: Let_def)

lemma findIndex_none: "findIndex p xs = - 1 \<longleftrightarrow> (\<forall>x \<in> set xs. \<not> p x)"
proof (induction xs)
  case Nil
  show ?case by simp
next
  case (Cons x xs)
  have "- 1 \<le> findIndex p xs" by (rule findIndex_ge)
  then have "findIndex p xs + 1 \<noteq> - 1" by arith
  with Cons show ?case by (auto simp: Let_def)
qed

lemma findIndex_takeWhile:
  "findIndex p xs \<noteq> - 1 \<Longrightarrow> nat (findIndex p xs) = length (takeWhile (\<lambda>x. \<not> p x) xs)"
proof (induction xs)
  case Nil
  then show ?case by simp
next
  case (Cons x xs)
  have ge: "- 1 \<le> findIndex p xs" by (rule findIndex_ge)
  show ?case
  proof (cases "p x")
    case True
    then show ?thesis by simp
  next
    case False
    with Cons.prems have ne: "findIndex p xs \<noteq> - 1" by (auto simp: Let_def split: if_splits)
    with ge have "0 \<le> findIndex p xs" by arith
    then have "nat (findIndex p xs + 1) = Suc (nat (findIndex p xs))" by arith
    with False ne Cons.IH show ?thesis by (simp add: Let_def)
  qed
qed

lemma findIndex_position:
  "(if findIndex p xs = - 1 then length xs else nat (findIndex p xs))
     = length (takeWhile (\<lambda>x. \<not> p x) xs)"
proof (cases "findIndex p xs = - 1")
  case True
  then have "\<forall>x \<in> set xs. \<not> p x" by (simp add: findIndex_none)
  then have "takeWhile (\<lambda>x. \<not> p x) xs = xs" by simp
  then have "length (takeWhile (\<lambda>x. \<not> p x) xs) = length xs" by (rule arg_cong)
  with True show ?thesis by (simp only: refl if_True)
next
  case False
  then show ?thesis by (simp add: findIndex_takeWhile)
qed

lemma take_length_takeWhile: "take (length (takeWhile q xs)) xs = takeWhile q xs"
  by (induction xs) auto

lemma drop_length_takeWhile: "drop (length (takeWhile q xs)) xs = dropWhile q xs"
  by (induction xs) auto

lemma insertOrderSorted_eq:
  "insertOrderSorted arr item =
     takeWhile (\<lambda>v. order v \<le> order item) arr @ item #
     dropWhile (\<lambda>v. order v \<le> order item) arr"
proof -
  have eq: "(\<lambda>v. \<not> order item < order v) = (\<lambda>v. order v \<le> order item)"
    by (auto simp: fun_eq_iff)
  have "insertOrderSorted arr item =
      take (length (takeWhile (\<lambda>v. \<not> order item < order v) arr)) arr @ item #
      drop (length (takeWhile (\<lambda>v. \<not> order item < order v) arr)) arr"
    unfolding insertOrderSorted_def Let_def splice_arr_def
    by (simp only: findIndex_position [of "\<lambda>v. order item < order v" arr]
        add_0_right append_Cons append_Nil)
  then show ?thesis
    by (simp only: take_length_takeWhile drop_length_takeWhile eq)
qed

lemma off_splice_eq:
  "findIndex (\<lambda>lo. listener lo = f) ls > - 1 \<Longrightarrow>
     splice_arr ls (nat (findIndex (\<lambda>lo. listener lo = f) ls)) 1 [] =
       takeWhile (\<lambda>lo. listener lo \<noteq> f) ls @ tl (dropWhile (\<lambda>lo. listener lo \<noteq> f) ls)"
proof -
  assume "findIndex (\<lambda>lo. listener lo = f) ls > - 1"
  then have ne: "findIndex (\<lambda>lo. listener lo = f) ls \<noteq> - 1" by arith
  have "tl (dropWhile (\<lambda>lo. listener lo \<noteq> f) ls) =
      tl (drop (length (takeWhile (\<lambda>lo. listener lo \<noteq> f) ls)) ls)"
    by (simp only: drop_length_takeWhile)
  then have "drop (Suc (length (takeWhile (\<lambda>lo. listener lo \<noteq> f) ls))) ls =
      tl (dropWhile (\<lambda>lo. listener lo \<noteq> f) ls)"
    by (simp add: drop_Suc tl_drop)
  with ne show ?thesis
    unfolding splice_arr_def
    by (simp add: findIndex_takeWhile take_length_takeWhile)
qed

section \<open>The methods on single events\<close>

lemma world_on [simp]: "world (on e f ord s) = world s"
  by (simp add: on_def Let_def)

lemma world_once [simp]: "world (once e f ord s) = world s"
  by (simp add: once_def Let_def)

lemma world_off [simp]: "world (off e f s) = world s"
  by (simp add: off_def Let_def split: option.splits)

lemma listeners_on_other: "e' \<noteq> e \<Longrightarrow> listeners (on e f ord s) e' = listeners s e'"
  by (simp add: on_def Let_def)

lemma listeners_once_other: "e' \<noteq> e \<Longrightarrow> listeners (once e f ord s) e' = listeners s e'"
  by (simp add: once_def Let_def)

lemma listeners_off_other: "e' \<noteq> e \<Longrightarrow> listeners (off e f s) e' = listeners s e'"
  by (simp add: off_def Let_def split: option.splits)

lemma get_on:
  "get_or_empty (on e f ord s) e' =
     (if e' = e
      then insertOrderSorted (get_or_empty s e)
             \<lparr>listener = f, once_opt = None, order = default_order ord\<rparr>
      else get_or_empty s e')"
  by (simp add: on_def Let_def get_or_empty_def)

lemma get_once:
  "get_or_empty (once e f ord s) e' =
     (if e' = e
      then insertOrderSorted (get_or_empty s e)
             \<lparr>listener = f, once_opt = Some True, order = default_order ord\<rparr>
      else get_or_empty s e')"
  by (simp add: once_def Let_def get_or_empty_def)

lemma findIndex_gt: "findIndex p xs > - 1 \<longleftrightarrow> (\<exists>x \<in> set xs. p x)"
proof -
  have "- 1 \<le> findIndex p xs" by (rule findIndex_ge)
  then have "findIndex p xs > - 1 \<longleftrightarrow> findIndex p xs \<noteq> - 1" by arith
  then show ?thesis by (simp add: findIndex_none)
qed

lemma off_absent: "f \<notin> listener ` set (get_or_empty s e) \<Longrightarrow> off e f s = s"
  by (auto simp: off_def Let_def get_or_empty_def findIndex_gt split: option.splits)

lemma takeWhile_first: "\<forall>y \<in> set ys. q y \<Longrightarrow> \<not> q x \<Longrightarrow> takeWhile q (ys @ x # zs) = ys"
  by (induction ys) auto

lemma dropWhile_first: "\<forall>y \<in> set ys. q y \<Longrightarrow> \<not> q x \<Longrightarrow> dropWhile q (ys @ x # zs) = x # zs"
  by (induction ys) auto

lemma off_first:
  assumes "get_or_empty s e = ys @ lo # zs" and "listener lo = f"
    and "f \<notin> listener ` set ys"
  shows "off e f s = s\<lparr>listeners := (listeners s)(e \<mapsto> ys @ zs)\<rparr>"
proof -
  from assms(1) have some: "listeners s e = Some (ys @ lo # zs)"
    by (auto simp: get_or_empty_def split: option.splits)
  have found: "findIndex (\<lambda>lo. listener lo = f) (ys @ lo # zs) > - 1"
    using assms(2) by (auto simp: findIndex_gt)
  have q: "\<forall>y \<in> set ys. listener y \<noteq> f" using assms(3) by auto
  have "splice_arr (ys @ lo # zs) (nat (findIndex (\<lambda>lo. listener lo = f) (ys @ lo # zs))) 1 [] =
      takeWhile (\<lambda>lo. listener lo \<noteq> f) (ys @ lo # zs) @
      tl (dropWhile (\<lambda>lo. listener lo \<noteq> f) (ys @ lo # zs))"
    by (rule off_splice_eq [OF found])
  also have "\<dots> = ys @ zs"
    using assms(2) by (simp add: takeWhile_first [OF q] dropWhile_first [OF q])
  finally show ?thesis using some found by (simp add: off_def Let_def)
qed

section \<open>The dispatch loop\<close>

lemma map_listeners_other:
  assumes "\<forall>l w. listeners (snd (cb l args w)) e' = listeners w e'"
  shows "listeners (snd (map_listeners cb args ls s)) e' = listeners s e'"
  using assms
proof (induction ls arbitrary: s)
  case Nil
  show ?case by simp
next
  case (Cons lo los)
  obtain out t where c: "cb (listener lo) args s = (out, t)" by (cases "cb (listener lo) args s")
  from Cons.prems have t: "listeners t e' = listeners s e'"
    using c by (metis snd_conv)
  show ?case
  proof (cases out)
    case (Inl ex)
    with c t show ?thesis by simp
  next
    case (Inr r)
    obtain out' t' where m: "map_listeners cb args los t = (out', t')"
      by (cases "map_listeners cb args los t")
    have "listeners (snd (map_listeners cb args los t)) e' = listeners t e'"
      using Cons.IH Cons.prems by blast
    with m t have "listeners t' e' = listeners s e'" by simp
    with c Inr m show ?thesis by (cases out') simp_all
  qed
qed

lemma emit_other:
  assumes "e' \<noteq> e" and "\<forall>l w. listeners (snd (cb l args w)) e' = listeners w e'"
  shows "listeners (snd (emit cb e args s)) e' = listeners s e'"
  using assms by (simp add: emit_def Let_def map_listeners_other)

lemma map_listeners_world:
  assumes "\<forall>l w. world (snd (cb l args w)) = world w"
  shows "world (snd (map_listeners cb args ls s)) = world s"
  using assms
proof (induction ls arbitrary: s)
  case Nil
  show ?case by simp
next
  case (Cons lo los)
  obtain out t where c: "cb (listener lo) args s = (out, t)" by (cases "cb (listener lo) args s")
  from Cons.prems have t: "world t = world s"
    using c by (metis snd_conv)
  show ?case
  proof (cases out)
    case (Inl ex)
    with c t show ?thesis by simp
  next
    case (Inr r)
    obtain out' t' where m: "map_listeners cb args los t = (out', t')"
      by (cases "map_listeners cb args los t")
    have "world (snd (map_listeners cb args los t)) = world t"
      using Cons.IH Cons.prems by blast
    with m t have "world t' = world s" by simp
    with c Inr m show ?thesis by (cases out') simp_all
  qed
qed

lemma map_listeners_throws:
  "fst (map_listeners cb args ls s) = Inl ex \<Longrightarrow>
     \<exists>lo \<in> set ls. \<exists>w. fst (cb (listener lo) args w) = Inl ex"
proof (induction ls arbitrary: s)
  case Nil
  then show ?case by simp
next
  case (Cons lo los)
  obtain out t where c: "cb (listener lo) args s = (out, t)" by (cases "cb (listener lo) args s")
  show ?case
  proof (cases out)
    case (Inl ex')
    with c Cons.prems have "ex' = ex" by simp
    with c Inl have "fst (cb (listener lo) args s) = Inl ex" by simp
    then show ?thesis by auto
  next
    case (Inr r)
    obtain out' t' where m: "map_listeners cb args los t = (out', t')"
      by (cases "map_listeners cb args los t")
    with c Inr Cons.prems have "out' = Inl ex" by (cases out') simp_all
    with m have "fst (map_listeners cb args los t) = Inl ex" by simp
    from Cons.IH [OF this] show ?thesis by auto
  qed
qed

section \<open>Evaluating the model on concrete registries\<close>

lemmas eval_defs =
  on_def once_def off_def emit_def emit_invoked_def get_or_empty_def new_hooks_def
  default_order_def
  insertOrderSorted_def splice_arr_def Let_def rec_on_def rec_once_def

lemma three_subs_x: "get_or_empty three_subs ''x'' = [rec_on 7 0, rec_on 8 1, rec_on 7 2]"
  by (simp add: three_subs_def eval_defs)

section \<open>Unsubscribing\<close>

text \<open>
  C4: \<^verbatim>\<open>off(event, listener)\<close> removes exactly the first record of the event's
  sequence whose callback is \<open>listener\<close> (compared as references): when the sequence
  is \<open>ys @ lo # zs\<close>, \<open>lo\<close> holds the callback and no record of \<open>ys\<close> does, the
  state after the call is the state before it with \<open>ys @ zs\<close> stored for the event,
  whatever \<open>zs\<close> holds. When no record holds the callback, or the event has no entry,
  the call returns the state unchanged; the method has no failing branch.
\<close>

theorem off_removes_first:
  "(get_or_empty s e = ys @ lo # zs \<and> listener lo = f \<and> f \<notin> listener ` set ys \<longrightarrow>
      off e f s = s\<lparr>listeners := (listeners s)(e \<mapsto> ys @ zs)\<rparr>) \<and>
   (f \<notin> listener ` set (get_or_empty s e) \<longrightarrow> off e f s = s) \<and>
   (listeners s e = None \<longrightarrow> off e f s = s)"
proof (intro conjI impI)
  assume "get_or_empty s e = ys @ lo # zs \<and> listener lo = f \<and> f \<notin> listener ` set ys"
  then show "off e f s = s\<lparr>listeners := (listeners s)(e \<mapsto> ys @ zs)\<rparr>"
    by (simp add: off_first)
next
  assume "f \<notin> listener ` set (get_or_empty s e)"
  then show "off e f s = s" by (rule off_absent)
next
  assume "listeners s e = None"
  then show "off e f s = s" by (simp add: off_def)
qed

theorem off_removes_first_witness:
  "get_or_empty three_subs ''x'' = [rec_on 7 0, rec_on 8 1, rec_on 7 2] \<and>
   get_or_empty (off ''x'' 7 three_subs) ''x'' = [rec_on 8 1, rec_on 7 2] \<and>
   off ''x'' 9 three_subs = three_subs \<and>
   off ''y'' 7 three_subs = three_subs \<and>
   off ''x'' 7 (off ''x'' 7 (off ''x'' 7 three_subs)) = off ''x'' 7 (off ''x'' 7 three_subs)"
proof -
  have a: "off ''x'' 7 three_subs =
      three_subs\<lparr>listeners := (listeners three_subs)(''x'' \<mapsto> [] @ [rec_on 8 1, rec_on 7 2])\<rparr>"
    using off_removes_first [of three_subs "''x''" "[]" "rec_on 7 0" "[rec_on 8 1, rec_on 7 2]" 7]
    by (simp add: three_subs_x) (simp add: rec_on_def)
  have b: "off ''x'' 9 three_subs = three_subs"
    using off_removes_first [of three_subs "''x''" ys lo zs 9 for ys lo zs]
    by (simp add: three_subs_x) (simp add: rec_on_def)
  have c: "off ''y'' 7 three_subs = three_subs"
    using off_removes_first [of three_subs "''y''" ys lo zs 7 for ys lo zs]
    by (simp add: three_subs_def eval_defs)
  have d: "get_or_empty (off ''x'' 7 three_subs) ''x'' = [rec_on 8 1, rec_on 7 2]"
    by (simp add: a get_or_empty_def)
  have e: "off ''x'' 7 (off ''x'' 7 three_subs) =
      (off ''x'' 7 three_subs)\<lparr>listeners := (listeners (off ''x'' 7 three_subs))(''x'' \<mapsto> [rec_on 8 1] @ [])\<rparr>"
    using off_removes_first [of "off ''x'' 7 three_subs" "''x''" "[rec_on 8 1]" "rec_on 7 2" "[]" 7]
    by (simp add: d) (simp add: rec_on_def)
  have f: "off ''x'' 7 (off ''x'' 7 (off ''x'' 7 three_subs)) = off ''x'' 7 (off ''x'' 7 three_subs)"
    using off_removes_first [of "off ''x'' 7 (off ''x'' 7 three_subs)" "''x''" ys lo zs 7 for ys lo zs]
    by (simp add: e get_or_empty_def) (simp add: rec_on_def)
  from three_subs_x b c d f show ?thesis by simp
qed

lemma reentrant_other: "e' \<noteq> ''x'' \<Longrightarrow> listeners (snd (reentrant l args w)) e' = listeners w e'"
  by (simp add: reentrant_def listeners_once_other listeners_off_other)

section \<open>Unknown events and empty sequences\<close>

text \<open>
  C8: no method has a failing branch of its own. For an event that has no entry, or
  whose sequence is empty, \<^verbatim>\<open>emit\<close> returns the empty result sequence and calls no
  callback, \<^verbatim>\<open>off\<close> returns the state unchanged, and \<^verbatim>\<open>on\<close> and \<^verbatim>\<open>once\<close> store
  the one-element sequence of the new record. \<^verbatim>\<open>emit\<close> throws only what one of the
  callbacks of the event's sequence has thrown.
\<close>

theorem total_on_unknown_events:
  "(get_or_empty s e = [] \<longrightarrow>
      emit cb e args s = (Inr [], s\<lparr>listeners := (listeners s)(e \<mapsto> [])\<rparr>) \<and>
      emit_invoked cb e args s = [] \<and>
      off e f s = s \<and>
      get_or_empty (on e f ord s) e = [rec_on f (default_order ord)] \<and>
      get_or_empty (once e f ord s) e = [rec_once f (default_order ord)]) \<and>
   (fst (emit cb e args s) = Inl ex \<longrightarrow>
      (\<exists>lo \<in> set (get_or_empty s e). \<exists>w. fst (cb (listener lo) args w) = Inl ex))"
proof (intro conjI impI)
  assume "fst (emit cb e args s) = Inl ex"
  then show "\<exists>lo \<in> set (get_or_empty s e). \<exists>w. fst (cb (listener lo) args w) = Inl ex"
    unfolding emit_def Let_def by (rule map_listeners_throws)
qed (simp_all add: emit_def emit_invoked_def Let_def off_absent get_on get_once
      insertOrderSorted_eq rec_on_def rec_once_def)

theorem total_on_unknown_events_witness:
  "emit plus_one_times_two ''never'' 5 (new_hooks ()) =
     (Inr [], \<lparr>listeners = Map.empty(''never'' \<mapsto> []), world = ()\<rparr>) \<and>
   emit_invoked plus_one_times_two ''never'' 5 (new_hooks ()) = [] \<and>
   off ''never'' 3 (new_hooks ()) = (new_hooks () :: (string, unit) state) \<and>
   get_or_empty (on ''never'' 3 None (new_hooks ())) ''never'' = [rec_on 3 0] \<and>
   get_or_empty (once ''never'' 3 (Some 4) (new_hooks ())) ''never'' = [rec_once 3 4] \<and>
   fst (emit second_throws ''x'' 5 (on ''x'' 1 None (new_hooks ()))) = Inl (Thrown ''boom'') \<and>
   (\<exists>lo \<in> set (get_or_empty (on ''x'' 1 None (new_hooks ())) ''x'').
      \<exists>w. fst (second_throws (listener lo) 5 w) = Inl (Thrown ''boom''))"
proof -
  have empty: "get_or_empty (new_hooks () :: (string, unit) state) ''never'' = []"
    by (simp add: eval_defs)
  have thrown: "fst (emit second_throws ''x'' 5 (on ''x'' 1 None (new_hooks ()))) = Inl (Thrown ''boom'')"
    by (simp add: eval_defs second_throws_def)
  from empty thrown show ?thesis
    using total_on_unknown_events [of "new_hooks ()" "''never''" plus_one_times_two 5 3 None ex for ex]
      total_on_unknown_events [of "new_hooks ()" "''never''" plus_one_times_two 5 3 "Some 4" ex for ex]
      total_on_unknown_events [of "on ''x'' 1 None (new_hooks ())" "''x''" second_throws 5 3 None
        "Thrown ''boom''"]
    by (simp add: new_hooks_def default_order_def)
qed

section \<open>Sorted insertion\<close>

lemma insertOrderSorted_Nil: "insertOrderSorted [] r = [r]"
  by (simp add: insertOrderSorted_eq)

lemma insertOrderSorted_Cons:
  "insertOrderSorted (x # xs) r =
     (if order r < order x then r # x # xs else x # insertOrderSorted xs r)"
  by (simp add: insertOrderSorted_eq)

lemma insert_position:
  assumes "order r = n"
  shows "\<exists>ys zs. xs = ys @ zs \<and> insertOrderSorted xs r = ys @ r # zs \<and>
     (\<forall>y \<in> set ys. order y \<le> n) \<and>
     (case zs of [] \<Rightarrow> True | z # _ \<Rightarrow> n < order z)"
proof (induction xs)
  case Nil
  show ?case by (simp add: insertOrderSorted_Nil)
next
  case (Cons x xs)
  show ?case
  proof (cases "n < order x")
    case True
    with assms have "x # xs = [] @ x # xs \<and> insertOrderSorted (x # xs) r = [] @ r # x # xs \<and>
        (\<forall>y \<in> set []. order y \<le> n) \<and>
        (case x # xs of [] \<Rightarrow> True | z # _ \<Rightarrow> n < order z)"
      by (simp add: insertOrderSorted_Cons)
    then show ?thesis by blast
  next
    case False
    from Cons.IH obtain ys zs where
      "xs = ys @ zs" "insertOrderSorted xs r = ys @ r # zs"
      "\<forall>y \<in> set ys. order y \<le> n"
      "case zs of [] \<Rightarrow> True | z # _ \<Rightarrow> n < order z"
      by blast
    with False assms have "x # xs = (x # ys) @ zs \<and>
        insertOrderSorted (x # xs) r = (x # ys) @ r # zs \<and>
        (\<forall>y \<in> set (x # ys). order y \<le> n) \<and>
        (case zs of [] \<Rightarrow> True | z # _ \<Rightarrow> n < order z)"
      by (simp add: insertOrderSorted_Cons)
    then show ?thesis by blast
  qed
qed

lemma set_insertOrderSorted: "set (insertOrderSorted xs r) = insert r (set xs)"
  by (induction xs) (auto simp: insertOrderSorted_Nil insertOrderSorted_Cons)

lemma sorted_insertOrderSorted:
  "sorted (map order xs) \<Longrightarrow> sorted (map order (insertOrderSorted xs r))"
  by (induction xs)
    (auto simp: insertOrderSorted_Nil insertOrderSorted_Cons set_insertOrderSorted)

lemma insert_stable:
  "sorted (map order xs) \<Longrightarrow>
     filter (\<lambda>v. order v = k) (insertOrderSorted xs r) =
     filter (\<lambda>v. order v = k) xs @ (if order r = k then [r] else [])"
proof (induction xs)
  case Nil
  show ?case by (simp add: insertOrderSorted_Nil)
next
  case (Cons x xs)
  show ?case
  proof (cases "order r < order x")
    case True
    with Cons.prems have "\<forall>y \<in> set (x # xs). order r < order y" by auto
    then have "order r = k \<longrightarrow> filter (\<lambda>v. order v = k) (x # xs) = []"
      unfolding filter_empty_conv by auto
    with True show ?thesis by (auto simp: insertOrderSorted_Cons)
  next
    case False
    with Cons show ?thesis by (simp add: insertOrderSorted_Cons)
  qed
qed

section \<open>Removal keeps the order of what remains\<close>

lemma remove_first_absent:
  "\<forall>x \<in> set ls. q x \<Longrightarrow> takeWhile q ls @ tl (dropWhile q ls) = ls"
  by (induction ls) auto

lemma get_off:
  "get_or_empty (off e f s) e' =
     (if e' = e
      then takeWhile (\<lambda>lo. listener lo \<noteq> f) (get_or_empty s e) @
           tl (dropWhile (\<lambda>lo. listener lo \<noteq> f) (get_or_empty s e))
      else get_or_empty s e')"
proof (cases "listeners s e")
  case None
  then show ?thesis by (simp add: off_def get_or_empty_def)
next
  case (Some ls)
  show ?thesis
  proof (cases "findIndex (\<lambda>lo. listener lo = f) ls > - 1")
    case True
    with Some show ?thesis
      using off_splice_eq [OF True] by (simp add: off_def Let_def get_or_empty_def)
  next
    case False
    then have "\<forall>lo \<in> set ls. listener lo \<noteq> f" by (simp add: findIndex_gt)
    then have "takeWhile (\<lambda>lo. listener lo \<noteq> f) ls @
        tl (dropWhile (\<lambda>lo. listener lo \<noteq> f) ls) = ls"
      by (rule remove_first_absent)
    with Some False show ?thesis by (simp add: off_def Let_def get_or_empty_def)
  qed
qed

lemma subseq_remove_first: "subseq (takeWhile q xs @ tl (dropWhile q xs)) xs"
  by (induction xs) auto

lemma sorted_subseq_map:
  "subseq ys xs \<Longrightarrow> sorted (map order xs) \<Longrightarrow> sorted (map order ys)"
proof -
  assume "subseq ys xs" and s: "sorted (map order xs)"
  then have "subseq (map order ys) (map order xs)" by (simp add: subseq_map)
  then obtain N where "map order ys = nths (map order xs) N"
    unfolding subseq_conv_nths by blast
  with s show ?thesis by (simp add: sorted_nths)
qed

section \<open>The invariant\<close>

lemma ordered_new_hooks: "ordered (new_hooks w)"
  by (simp add: ordered_def new_hooks_def get_or_empty_def)

lemma ordered_on: "ordered s \<Longrightarrow> ordered (on e f ord s)"
  by (simp add: ordered_def get_on sorted_insertOrderSorted)

lemma ordered_once: "ordered s \<Longrightarrow> ordered (once e f ord s)"
  by (simp add: ordered_def get_once sorted_insertOrderSorted)

lemma ordered_off:
  assumes "ordered s"
  shows "ordered (off e f s)"
  unfolding ordered_def
proof
  fix e'
  from assms have s: "sorted (map order (get_or_empty s e'))" for e'
    by (simp add: ordered_def)
  show "sorted (map order (get_or_empty (off e f s) e'))"
  proof (cases "e' = e")
    case True
    have "sorted (map order (takeWhile (\<lambda>lo. listener lo \<noteq> f) (get_or_empty s e) @
        tl (dropWhile (\<lambda>lo. listener lo \<noteq> f) (get_or_empty s e))))"
      by (rule sorted_subseq_map [OF subseq_remove_first s])
    with True show ?thesis by (simp only: get_off refl if_True)
  next
    case False
    with s show ?thesis by (simp add: get_off)
  qed
qed

lemma ordered_remove_once:
  assumes "ordered s"
  shows "ordered (s\<lparr>listeners := (listeners s)(e \<mapsto>
       filter (\<lambda>lo. once_opt lo \<noteq> Some True) (get_or_empty s e))\<rparr>)"
  unfolding ordered_def
proof
  fix e'
  from assms have s: "sorted (map order (get_or_empty s e'))" for e'
    by (simp add: ordered_def)
  have "sorted (map order (filter (\<lambda>lo. once_opt lo \<noteq> Some True) (get_or_empty s e)))"
    by (rule sorted_subseq_map [OF subseq_filter_left s])
  with s [of e'] show "sorted (map order (get_or_empty
      (s\<lparr>listeners := (listeners s)(e \<mapsto>
         filter (\<lambda>lo. once_opt lo \<noteq> Some True) (get_or_empty s e))\<rparr>) e'))"
    by (simp add: get_or_empty_def)
qed

lemma ordered_map_listeners:
  assumes "preserves_order cb"
  shows "ordered s \<Longrightarrow> ordered (snd (map_listeners cb args ls s))"
proof (induction ls arbitrary: s)
  case Nil
  then show ?case by simp
next
  case (Cons lo los)
  obtain out t where c: "cb (listener lo) args s = (out, t)" by (cases "cb (listener lo) args s")
  with assms Cons.prems have t: "ordered t"
    unfolding preserves_order_def by (metis snd_conv)
  show ?case
  proof (cases out)
    case (Inl ex)
    with c t show ?thesis by simp
  next
    case (Inr r)
    obtain out' t' where m: "map_listeners cb args los t = (out', t')"
      by (cases "map_listeners cb args los t")
    from Cons.IH [OF t] m have "ordered t'" by simp
    with c Inr m show ?thesis by (cases out') simp_all
  qed
qed

lemma ordered_emit:
  assumes "preserves_order cb" and "ordered s"
  shows "ordered (snd (emit cb e args s))"
  unfolding emit_def Let_def
  by (rule ordered_map_listeners [OF assms(1) ordered_remove_once [OF assms(2)]])

lemma ordered_perform:
  assumes "preserves_order cb" and "ordered s"
  shows "ordered (perform cb c s)"
  by (cases c) (simp_all add: assms ordered_on ordered_once ordered_off ordered_emit)

lemma ordered_perform_all:
  assumes "preserves_order cb"
  shows "ordered s \<Longrightarrow> ordered (perform_all cb cs s)"
  by (induction cs arbitrary: s) (simp_all add: ordered_perform [OF assms])

lemma emit_stored:
  assumes "\<forall>l w. listeners (snd (cb l args w)) e = listeners w e"
  shows "listeners (snd (emit cb e args s)) e =
     Some (filter (\<lambda>lo. once_opt lo \<noteq> Some True) (get_or_empty s e))"
  unfolding emit_def Let_def by (simp add: map_listeners_other [where cb = cb and args = args and e' = e, OF assms])

lemma preserves_order_scripted:
  "preserves_order (scripted n body :: ('e, 'a, 'r, 'w) calls)"
proof (induction n)
  case 0
  show ?case by (simp add: preserves_order_def)
next
  case (Suc n)
  show ?case
    unfolding preserves_order_def
  proof (intro allI impI)
    fix l a and w :: "('e, 'w) state"
    assume "ordered w"
    then have "ordered (perform_all (scripted n body) (fst (body l a)) w)"
      by (rule ordered_perform_all [OF Suc.IH])
    then show "ordered (snd (scripted (Suc n) body l a w))" by simp
  qed
qed

lemma ordered_scripted_run: "ordered (perform_all (scripted n body) cs (new_hooks w0))"
  by (rule ordered_perform_all [OF preserves_order_scripted ordered_new_hooks])

lemma preserves_order_reentrant: "preserves_order reentrant"
  by (simp add: preserves_order_def reentrant_def ordered_once ordered_off)

section \<open>Ordering of the stored sequences\<close>

text \<open>
  C1: every stored sequence is in non-decreasing \<open>order\<close>, and stays so over any
  sequence of \<^verbatim>\<open>on\<close>, \<^verbatim>\<open>once\<close>, \<^verbatim>\<open>off\<close> and \<^verbatim>\<open>emit\<close> calls, from the
  empty registry or from any ordered one, with callbacks that may call the methods
  themselves: with any callbacks that keep an ordered registry ordered, and so (last
  line of the theorem) with all callbacks whose bodies are calls of the four methods,
  nested to any depth. \<^verbatim>\<open>on\<close> and \<^verbatim>\<open>once\<close> put the new record at the first position whose
  record has a strictly greater \<open>order\<close>, at the end when there is none: the old
  sequence is \<open>ys @ zs\<close>, the new one \<open>ys @ r # zs\<close>, no record of \<open>ys\<close> has an
  \<open>order\<close> above the new one and the first record of \<open>zs\<close> has. Ties are stable:
  among the records of any one \<open>order\<close> value \<open>k\<close> of an ordered registry, the new
  record comes last and the others keep their places; \<^verbatim>\<open>off\<close> and the removal of
  one-shot records by \<^verbatim>\<open>emit\<close> leave a subsequence of the old sequence.
\<close>

theorem listeners_sorted_stable:
  "ordered (new_hooks w0) \<and>
   (ordered s \<and> preserves_order cb \<longrightarrow> ordered (perform_all cb cs s)) \<and>
   (\<exists>ys zs. get_or_empty s e = ys @ zs \<and>
      get_or_empty (on e f ord s) e = ys @ rec_on f (default_order ord) # zs \<and>
      (\<forall>y \<in> set ys. order y \<le> default_order ord) \<and>
      (case zs of [] \<Rightarrow> True | z # _ \<Rightarrow> default_order ord < order z)) \<and>
   (\<exists>ys zs. get_or_empty s e = ys @ zs \<and>
      get_or_empty (once e f ord s) e = ys @ rec_once f (default_order ord) # zs \<and>
      (\<forall>y \<in> set ys. order y \<le> default_order ord) \<and>
      (case zs of [] \<Rightarrow> True | z # _ \<Rightarrow> default_order ord < order z)) \<and>
   (ordered s \<longrightarrow>
      filter (\<lambda>v. order v = k) (get_or_empty (on e f ord s) e) =
        filter (\<lambda>v. order v = k) (get_or_empty s e) @
        (if default_order ord = k then [rec_on f (default_order ord)] else []) \<and>
      filter (\<lambda>v. order v = k) (get_or_empty (once e f ord s) e) =
        filter (\<lambda>v. order v = k) (get_or_empty s e) @
        (if default_order ord = k then [rec_once f (default_order ord)] else [])) \<and>
   subseq (get_or_empty (off e f s) e) (get_or_empty s e) \<and>
   ((\<forall>l w. listeners (snd (cb l args w)) e = listeners w e) \<longrightarrow>
      subseq (get_or_empty (snd (emit cb e args s)) e) (get_or_empty s e)) \<and>
   ordered (perform_all (scripted n body) cs' (new_hooks w0))"
proof (intro conjI impI)
  show "ordered (new_hooks w0)" by (rule ordered_new_hooks)
next
  show "ordered (perform_all (scripted n body) cs' (new_hooks w0))"
    by (rule ordered_scripted_run)
next
  assume "ordered s \<and> preserves_order cb"
  then show "ordered (perform_all cb cs s)" by (simp add: ordered_perform_all)
next
  show "\<exists>ys zs. get_or_empty s e = ys @ zs \<and>
      get_or_empty (on e f ord s) e = ys @ rec_on f (default_order ord) # zs \<and>
      (\<forall>y \<in> set ys. order y \<le> default_order ord) \<and>
      (case zs of [] \<Rightarrow> True | z # _ \<Rightarrow> default_order ord < order z)"
    using insert_position [of "rec_on f (default_order ord)" "default_order ord" "get_or_empty s e"]
    by (simp add: get_on rec_on_def)
next
  show "\<exists>ys zs. get_or_empty s e = ys @ zs \<and>
      get_or_empty (once e f ord s) e = ys @ rec_once f (default_order ord) # zs \<and>
      (\<forall>y \<in> set ys. order y \<le> default_order ord) \<and>
      (case zs of [] \<Rightarrow> True | z # _ \<Rightarrow> default_order ord < order z)"
    using insert_position [of "rec_once f (default_order ord)" "default_order ord" "get_or_empty s e"]
    by (simp add: get_once rec_once_def)
next
  assume "ordered s"
  then have s: "sorted (map order (get_or_empty s e))" by (simp add: ordered_def)
  show "filter (\<lambda>v. order v = k) (get_or_empty (on e f ord s) e) =
        filter (\<lambda>v. order v = k) (get_or_empty s e) @
        (if default_order ord = k then [rec_on f (default_order ord)] else [])"
    using insert_stable [OF s, of k "rec_on f (default_order ord)"]
    by (simp add: get_on rec_on_def)
  show "filter (\<lambda>v. order v = k) (get_or_empty (once e f ord s) e) =
        filter (\<lambda>v. order v = k) (get_or_empty s e) @
        (if default_order ord = k then [rec_once f (default_order ord)] else [])"
    using insert_stable [OF s, of k "rec_once f (default_order ord)"]
    by (simp add: get_once rec_once_def)
next
  show "subseq (get_or_empty (off e f s) e) (get_or_empty s e)"
    by (simp only: get_off refl if_True subseq_remove_first)
next
  assume "\<forall>l w. listeners (snd (cb l args w)) e = listeners w e"
  then show "subseq (get_or_empty (snd (emit cb e args s)) e) (get_or_empty s e)"
    by (simp add: get_or_empty_def [of "snd (emit cb e args s)"] emit_stored)
qed

theorem listeners_sorted_stable_witness:
  "preserves_order reentrant \<and>
   ordered (perform_all reentrant
     [On ''x'' 0 (Some 0), On ''x'' 1 (Some (- 1)), Once ''x'' 2 None, Emit ''x'' 5, Off ''x'' 0]
     (new_hooks ())) \<and>
   get_or_empty (perform_all reentrant
     [On ''x'' 0 (Some 0), On ''x'' 1 (Some (- 1)), Once ''x'' 2 None, Emit ''x'' 5, Off ''x'' 0]
     (new_hooks ())) ''x'' = [rec_on 1 (- 1), rec_once 0 0] \<and>
   ordered three_subs \<and>
   get_or_empty (on ''x'' 9 None three_subs) ''x'' =
     [rec_on 7 0, rec_on 9 0, rec_on 8 1, rec_on 7 2] \<and>
   filter (\<lambda>v. order v = 0) (get_or_empty (on ''x'' 9 None three_subs) ''x'') =
     filter (\<lambda>v. order v = 0) (get_or_empty three_subs ''x'') @ [rec_on 9 0] \<and>
   subseq (get_or_empty (snd (emit plus_one_times_two ''x'' 5 (once ''x'' 9 None three_subs))) ''x'')
     [rec_on 7 0, rec_once 9 0, rec_on 8 1, rec_on 7 2]"
proof -
  have a: "ordered (new_hooks () :: (string, unit) state)"
    by (rule listeners_sorted_stable [THEN conjunct1])
  have "ordered (new_hooks () :: (string, unit) state) \<and> preserves_order reentrant \<longrightarrow>
      ordered (perform_all reentrant
        [On ''x'' 0 (Some 0), On ''x'' 1 (Some (- 1)), Once ''x'' 2 None, Emit ''x'' 5, Off ''x'' 0]
        (new_hooks ()))"
    by (rule listeners_sorted_stable [THEN conjunct2, THEN conjunct1])
  with a preserves_order_reentrant have b: "ordered (perform_all reentrant
     [On ''x'' 0 (Some 0), On ''x'' 1 (Some (- 1)), Once ''x'' 2 None, Emit ''x'' 5, Off ''x'' 0]
     (new_hooks ()))"
    by blast
  have c: "get_or_empty (perform_all reentrant
     [On ''x'' 0 (Some 0), On ''x'' 1 (Some (- 1)), Once ''x'' 2 None, Emit ''x'' 5, Off ''x'' 0]
     (new_hooks ())) ''x'' = [rec_on 1 (- 1), rec_once 0 0]"
    by (simp add: eval_defs reentrant_def)
  have d: "ordered three_subs"
    unfolding three_subs_def by (intro ordered_on ordered_new_hooks)
  have e: "get_or_empty (on ''x'' 9 None three_subs) ''x'' =
     [rec_on 7 0, rec_on 9 0, rec_on 8 1, rec_on 7 2]"
    by (simp add: three_subs_def eval_defs)
  have "ordered three_subs \<longrightarrow>
      filter (\<lambda>v. order v = 0) (get_or_empty (on ''x'' 9 None three_subs) ''x'') =
        filter (\<lambda>v. order v = 0) (get_or_empty three_subs ''x'') @
        (if default_order None = 0 then [rec_on 9 (default_order None)] else []) \<and>
      filter (\<lambda>v. order v = 0) (get_or_empty (once ''x'' 9 None three_subs) ''x'') =
        filter (\<lambda>v. order v = 0) (get_or_empty three_subs ''x'') @
        (if default_order None = 0 then [rec_once 9 (default_order None)] else [])"
    by (rule listeners_sorted_stable
        [THEN conjunct2, THEN conjunct2, THEN conjunct2, THEN conjunct2, THEN conjunct1])
  with d have f: "filter (\<lambda>v. order v = 0) (get_or_empty (on ''x'' 9 None three_subs) ''x'') =
     filter (\<lambda>v. order v = 0) (get_or_empty three_subs ''x'') @ [rec_on 9 0]"
    by (simp add: default_order_def)
  have g: "get_or_empty (once ''x'' 9 None three_subs) ''x'' =
     [rec_on 7 0, rec_once 9 0, rec_on 8 1, rec_on 7 2]"
    by (simp add: three_subs_def eval_defs)
  have "(\<forall>l w. listeners (snd (plus_one_times_two l 5 w)) ''x'' = listeners w ''x'') \<longrightarrow>
      subseq (get_or_empty (snd (emit plus_one_times_two ''x'' 5 (once ''x'' 9 None three_subs))) ''x'')
        (get_or_empty (once ''x'' 9 None three_subs) ''x'')"
    by (rule listeners_sorted_stable
        [THEN conjunct2, THEN conjunct2, THEN conjunct2, THEN conjunct2, THEN conjunct2,
         THEN conjunct2, THEN conjunct1])
  then have h: "subseq
      (get_or_empty (snd (emit plus_one_times_two ''x'' 5 (once ''x'' 9 None three_subs))) ''x'')
      [rec_on 7 0, rec_once 9 0, rec_on 8 1, rec_on 7 2]"
    by (simp add: plus_one_times_two_def g)
  from preserves_order_reentrant b c d e f h show ?thesis by (intro conjI)
qed

section \<open>Dispatch when no callback throws\<close>






lemma length_insertOrderSorted: "length (insertOrderSorted xs r) = Suc (length xs)"
  by (induction xs) (auto simp: insertOrderSorted_Nil insertOrderSorted_Cons)



section \<open>Dispatch in sequence order\<close>



section \<open>One-shot listeners and duplicates\<close>












section \<open>A callback that throws\<close>





section \<open>Calls made during a dispatch\<close>

lemma perform_all_append:
  "perform_all cb (cs @ ds) s = perform_all cb ds (perform_all cb cs s)"
  by (induction cs arbitrary: s) simp_all

lemma world_perform_mutation: "is_mutation c \<Longrightarrow> world (perform cb c s) = world s"
  by (cases c) simp_all

lemma world_perform_mutations:
  "\<forall>c \<in> set cs. is_mutation c \<Longrightarrow> world (perform_all cb cs s) = world s"
  by (induction cs arbitrary: s) (simp_all add: world_perform_mutation)

lemma listeners_on:
  "listeners (on e f ord s) =
     (listeners s)(e \<mapsto> insertOrderSorted (case listeners s e of None \<Rightarrow> [] | Some l \<Rightarrow> l)
        \<lparr>listener = f, once_opt = None, order = default_order ord\<rparr>)"
  by (simp add: on_def Let_def get_or_empty_def)

lemma listeners_once:
  "listeners (once e f ord s) =
     (listeners s)(e \<mapsto> insertOrderSorted (case listeners s e of None \<Rightarrow> [] | Some l \<Rightarrow> l)
        \<lparr>listener = f, once_opt = Some True, order = default_order ord\<rparr>)"
  by (simp add: once_def Let_def get_or_empty_def)

lemma listeners_off:
  "listeners (off e f s) =
     (case listeners s e of
        None \<Rightarrow> listeners s
      | Some ls \<Rightarrow>
          if findIndex (\<lambda>lo. listener lo = f) ls > - 1
          then (listeners s)(e \<mapsto>
                 splice_arr ls (nat (findIndex (\<lambda>lo. listener lo = f) ls)) 1 [])
          else listeners s)"
  by (cases "listeners s e") (simp_all add: off_def Let_def)

lemma listeners_on_cong:
  "listeners s = listeners s' \<Longrightarrow> listeners (on e f ord s) = listeners (on e f ord s')"
  by (simp only: listeners_on)

lemma listeners_once_cong:
  "listeners s = listeners s' \<Longrightarrow> listeners (once e f ord s) = listeners (once e f ord s')"
  by (simp only: listeners_once)

lemma listeners_off_cong:
  "listeners s = listeners s' \<Longrightarrow> listeners (off e f s) = listeners (off e f s')"
  by (simp only: listeners_off)

lemma listeners_perform_cong:
  "is_mutation c \<Longrightarrow> listeners s = listeners s' \<Longrightarrow>
     listeners (perform cb c s) = listeners (perform cb c s')"
proof (cases c)
  case (On event f ord)
  assume "listeners s = listeners s'"
  with On show ?thesis by (simp only: perform.simps listeners_on)
next
  case (Once event f ord)
  assume "listeners s = listeners s'"
  with Once show ?thesis by (simp only: perform.simps listeners_once)
next
  case (Off event f)
  assume "listeners s = listeners s'"
  with Off show ?thesis by (simp only: perform.simps listeners_off)
next
  case (Emit event args)
  assume "is_mutation c"
  with Emit show ?thesis by simp
qed

lemma listeners_perform_all_cong:
  "\<forall>c \<in> set cs. is_mutation c \<Longrightarrow> listeners s = listeners s' \<Longrightarrow>
     listeners (perform_all cb cs s) = listeners (perform_all cb cs s')"
proof (induction cs arbitrary: s s')
  case Nil
  then show ?case by simp
next
  case (Cons c cs)
  from Cons.prems have m: "is_mutation c" and ms: "\<forall>c \<in> set cs. is_mutation c"
    and l: "listeners s = listeners s'" by simp_all
  have "listeners (perform cb c s) = listeners (perform cb c s')"
    by (rule listeners_perform_cong [OF m l])
  from Cons.IH [OF ms this] show ?case by simp
qed

lemma dispatch_ignores_mutations:
  assumes blind: "registry_blind cb args"
    and muts: "\<forall>l. \<forall>c \<in> set (muts l). is_mutation c"
  shows "world s = world s' \<Longrightarrow>
     fst (map_listeners (with_calls cb muts) args ls s) = fst (map_listeners cb args ls s') \<and>
     world (snd (map_listeners (with_calls cb muts) args ls s)) =
       world (snd (map_listeners cb args ls s')) \<and>
     invoked (with_calls cb muts) args ls s = invoked cb args ls s'"
proof (induction ls arbitrary: s s')
  case Nil
  then show ?case by simp
next
  case (Cons lo los)
  let ?m = "perform_all cb (muts (listener lo)) s"
  obtain out t where c: "cb (listener lo) args ?m = (out, t)" by (cases "cb (listener lo) args ?m")
  then have wc: "with_calls cb muts (listener lo) args s = (out, t)" by (simp add: with_calls_def)
  obtain out' t' where c': "cb (listener lo) args s' = (out', t')"
    by (cases "cb (listener lo) args s'")
  from muts have "world ?m = world s" by (simp add: world_perform_mutations)
  with Cons.prems have "world ?m = world s'" by simp
  with blind have "fst (cb (listener lo) args ?m) = fst (cb (listener lo) args s') \<and>
      world (snd (cb (listener lo) args ?m)) = world (snd (cb (listener lo) args s'))"
    unfolding registry_blind_def by blast
  with c c' have "out' = out" and w: "world t = world t'" by simp_all
  with c' have c'': "cb (listener lo) args s' = (out, t')" by simp
  show ?case
  proof (cases out)
    case (Inl ex)
    with wc c'' w show ?thesis by simp
  next
    case (Inr r)
    obtain o1 t1 where m1: "map_listeners (with_calls cb muts) args los t = (o1, t1)"
      by (cases "map_listeners (with_calls cb muts) args los t")
    obtain o2 t2 where m2: "map_listeners cb args los t' = (o2, t2)"
      by (cases "map_listeners cb args los t'")
    from Cons.IH [OF w] m1 m2 have "o1 = o2" and "world t1 = world t2"
      and "invoked (with_calls cb muts) args los t = invoked cb args los t'"
      by simp_all
    with wc c'' Inr m1 m2 show ?thesis
      by (cases o2) simp_all
  qed
qed

lemma mutations_are_applied:
  assumes keeps: "\<forall>l w. listeners (snd (cb l args w)) = listeners w"
    and returns: "\<forall>l w. \<exists>r. fst (cb l args w) = Inr r"
    and muts: "\<forall>l. \<forall>c \<in> set (muts l). is_mutation c"
  shows "listeners (snd (map_listeners (with_calls cb muts) args ls s)) =
     listeners (perform_all cb (concat (map (\<lambda>lo. muts (listener lo)) ls)) s)"
proof (induction ls arbitrary: s)
  case Nil
  show ?case by simp
next
  case (Cons lo los)
  let ?m = "perform_all cb (muts (listener lo)) s"
  let ?rest = "concat (map (\<lambda>lo. muts (listener lo)) los)"
  from returns obtain r where "fst (cb (listener lo) args ?m) = Inr r" by blast
  then obtain t where c: "cb (listener lo) args ?m = (Inr r, t)"
    by (cases "cb (listener lo) args ?m") simp
  then have wc: "with_calls cb muts (listener lo) args s = (Inr r, t)"
    by (simp add: with_calls_def)
  from keeps have "listeners (snd (cb (listener lo) args ?m)) = listeners ?m" by blast
  with c have t: "listeners t = listeners ?m" by simp
  from muts have rest: "\<forall>c \<in> set ?rest. is_mutation c" by auto
  obtain o1 t1 where m1: "map_listeners (with_calls cb muts) args los t = (o1, t1)"
    by (cases "map_listeners (with_calls cb muts) args los t")
  from Cons.IH [of t] m1 have "listeners t1 = listeners (perform_all cb ?rest t)" by simp
  also have "\<dots> = listeners (perform_all cb ?rest ?m)"
    by (rule listeners_perform_all_cong [OF rest t])
  finally have "listeners t1 = listeners (perform_all cb (muts (listener lo) @ ?rest) s)"
    by (simp add: perform_all_append)
  with wc m1 show ?case by (cases o1) simp_all
qed

lemma map_listeners_observe:
  "map_listeners (observe e) args ls s = (Inr (map (\<lambda>lo. get_or_empty s e) ls), s)"
  by (induction ls) (simp_all add: observe_def)

lemma concat_calls_of_one:
  assumes "\<forall>l. l \<noteq> f \<longrightarrow> muts l = []"
  shows "concat (map (\<lambda>lo. muts (listener lo)) xs) =
     concat (map (\<lambda>lo. muts f) (filter (\<lambda>lo. listener lo = f) xs))"
  using assms by (induction xs) auto

lemma filter_takeWhile_dropWhile_empty:
  "filter P xs = [] \<Longrightarrow> filter P (takeWhile q xs) = [] \<and> filter P (dropWhile q xs) = []"
  by (auto simp: filter_empty_conv dest: set_takeWhileD set_dropWhileD)

lemma get_or_empty_cong: "listeners s = listeners s' \<Longrightarrow> get_or_empty s e = get_or_empty s' e"
  by (simp add: get_or_empty_def)

text \<open>
  C6: \<^verbatim>\<open>on\<close>, \<^verbatim>\<open>once\<close> and \<^verbatim>\<open>off\<close> calls made by the callbacks while an
  \<^verbatim>\<open>emit\<close> is dispatching change neither the callbacks this \<^verbatim>\<open>emit\<close> calls, nor
  their order, nor its outcome: the dispatch with callbacks that make such calls
  (\<open>with_calls cb muts\<close>) has the outcome and the calls of the dispatch with the
  callbacks that do not (\<open>cb\<close>), for callbacks whose own behaviour does not depend on
  the registry. The calls are not lost: when no callback throws, the registry after
  the \<^verbatim>\<open>emit\<close> is the one the calls of the dispatched callbacks, in dispatch order,
  make of the registry without the one-shot records, which is what the next
  \<^verbatim>\<open>emit\<close> dispatches on.
\<close>

theorem reentrant_calls_are_deferred:
  assumes "registry_blind cb args" and "\<forall>l. \<forall>c \<in> set (muts l). is_mutation c"
  shows "fst (emit (with_calls cb muts) e args s) = fst (emit cb e args s) \<and>
    emit_invoked (with_calls cb muts) e args s = emit_invoked cb e args s \<and>
    ((\<forall>l w. listeners (snd (cb l args w)) = listeners w) \<and>
     (\<forall>l w. \<exists>r. fst (cb l args w) = Inr r) \<longrightarrow>
       listeners (snd (emit (with_calls cb muts) e args s)) =
       listeners (perform_all cb (concat (map (\<lambda>lo. muts (listener lo)) (get_or_empty s e)))
         (s\<lparr>listeners := (listeners s)(e \<mapsto>
            filter (\<lambda>lo. once_opt lo \<noteq> Some True) (get_or_empty s e))\<rparr>)))"
proof (intro conjI impI)
  let ?pre = "s\<lparr>listeners := (listeners s)(e \<mapsto>
      filter (\<lambda>lo. once_opt lo \<noteq> Some True) (get_or_empty s e))\<rparr>"
  note d = dispatch_ignores_mutations [OF assms, of ?pre ?pre "get_or_empty s e"]
  from d show "fst (emit (with_calls cb muts) e args s) = fst (emit cb e args s)"
    by (simp add: emit_def Let_def)
  from d show "emit_invoked (with_calls cb muts) e args s = emit_invoked cb e args s"
    by (simp add: emit_invoked_def Let_def)
  assume "(\<forall>l w. listeners (snd (cb l args w)) = listeners w) \<and>
     (\<forall>l w. \<exists>r. fst (cb l args w) = Inr r)"
  then have k: "\<forall>l w. listeners (snd (cb l args w)) = listeners w"
    and r: "\<forall>l w. \<exists>r. fst (cb l args w) = Inr r" by blast+
  show "listeners (snd (emit (with_calls cb muts) e args s)) =
       listeners (perform_all cb (concat (map (\<lambda>lo. muts (listener lo)) (get_or_empty s e))) ?pre)"
    unfolding emit_def Let_def
    by (rule mutations_are_applied [where cb = cb and args = args, OF k r assms(2)])
qed

theorem reentrant_calls_are_deferred_witness:
  "registry_blind plus_one_times_two 5 \<and>
   get_or_empty two_subs ''x'' = [rec_on 0 0, rec_on 1 1] \<and>
   fst (emit (with_calls plus_one_times_two unsubscribes_other) ''x'' 5 two_subs) = Inr [6, 10] \<and>
   emit_invoked (with_calls plus_one_times_two unsubscribes_other) ''x'' 5 two_subs = [0, 1] \<and>
   get_or_empty (snd (emit (with_calls plus_one_times_two unsubscribes_other) ''x'' 5 two_subs)) ''x''
     = [rec_on 0 0] \<and>
   fst (emit (with_calls plus_one_times_two unsubscribes_other) ''x'' 5
     (snd (emit (with_calls plus_one_times_two unsubscribes_other) ''x'' 5 two_subs))) = Inr [6]"
proof -
  have b: "registry_blind plus_one_times_two (5 :: int)"
    by (simp add: registry_blind_def plus_one_times_two_def)
  have m: "\<forall>l. \<forall>c \<in> set (unsubscribes_other l). is_mutation c"
    by (simp add: unsubscribes_other_def)
  have g: "get_or_empty two_subs ''x'' = [rec_on 0 0, rec_on 1 1]"
    by (simp add: two_subs_def eval_defs)
  have k: "\<forall>l (w :: (string, unit) state). listeners (snd (plus_one_times_two l 5 w)) = listeners w"
    by (simp add: plus_one_times_two_def)
  have r: "\<forall>l (w :: (string, unit) state). \<exists>r. fst (plus_one_times_two l 5 w) = Inr r"
    by (simp add: plus_one_times_two_def)
  note t = reentrant_calls_are_deferred [OF b m, of "''x''" two_subs]
  have plain: "fst (emit plus_one_times_two ''x'' 5 two_subs) = Inr [6, 10]"
    and plain_invoked: "emit_invoked plus_one_times_two ''x'' 5 two_subs = [0, 1]"
    by (simp_all add: two_subs_def eval_defs plus_one_times_two_def)
  from t plain have c1: "fst (emit (with_calls plus_one_times_two unsubscribes_other) ''x'' 5 two_subs)
      = Inr [6, 10]" by simp
  from t plain_invoked
  have c2: "emit_invoked (with_calls plus_one_times_two unsubscribes_other) ''x'' 5 two_subs = [0, 1]"
    by simp
  from t k r have "listeners (snd (emit (with_calls plus_one_times_two unsubscribes_other) ''x'' 5 two_subs)) =
      listeners (perform_all plus_one_times_two
        (concat (map (\<lambda>lo. unsubscribes_other (listener lo)) (get_or_empty two_subs ''x'')))
        (two_subs\<lparr>listeners := (listeners two_subs)(''x'' \<mapsto>
            filter (\<lambda>lo. once_opt lo \<noteq> Some True) (get_or_empty two_subs ''x''))\<rparr>))"
    by blast
  then have l: "listeners (snd (emit (with_calls plus_one_times_two unsubscribes_other) ''x'' 5 two_subs))
      ''x'' = Some [rec_on 0 0]"
    by (simp add: g unsubscribes_other_def rec_on_def off_def Let_def splice_arr_def)
  then have c3: "get_or_empty (snd (emit (with_calls plus_one_times_two unsubscribes_other) ''x'' 5 two_subs)) ''x''
     = [rec_on 0 0]"
    by (simp add: get_or_empty_def)
  have c4: "fst (emit (with_calls plus_one_times_two unsubscribes_other) ''x'' 5
     (snd (emit (with_calls plus_one_times_two unsubscribes_other) ''x'' 5 two_subs))) = Inr [6]"
    using reentrant_calls_are_deferred [OF b m, of "''x''"
        "snd (emit (with_calls plus_one_times_two unsubscribes_other) ''x'' 5 two_subs)"]
    by (simp add: emit_def [of plus_one_times_two] Let_def c3 plus_one_times_two_def rec_on_def)
  from b g c1 c2 c3 c4 show ?thesis by (intro conjI)
qed

lemma resubscribed_once:
  assumes one: "filter (\<lambda>lo. listener lo = f) (get_or_empty s e) = [lo]"
    and shot: "once_opt lo = Some True"
    and self: "muts f = [c]" and mut: "is_mutation c"
    and others: "\<forall>l. l \<noteq> f \<longrightarrow> muts l = []"
    and keeps: "\<forall>l w. listeners (snd (cb l args w)) = listeners w"
    and returns: "\<forall>l w. \<exists>r. fst (cb l args w) = Inr r"
  shows "get_or_empty (snd (emit (with_calls cb muts) e args s)) e =
     get_or_empty (perform cb c (s\<lparr>listeners := (listeners s)(e \<mapsto>
       filter (\<lambda>lo. once_opt lo \<noteq> Some True) (get_or_empty s e))\<rparr>)) e"
    and "filter (\<lambda>lo. listener lo = f)
       (filter (\<lambda>lo. once_opt lo \<noteq> Some True) (get_or_empty s e)) = []"
proof -
  let ?pre = "s\<lparr>listeners := (listeners s)(e \<mapsto>
       filter (\<lambda>lo. once_opt lo \<noteq> Some True) (get_or_empty s e))\<rparr>"
  from self mut others have muts: "\<forall>l. \<forall>c \<in> set (muts l). is_mutation c"
    by (metis empty_iff empty_set set_ConsD)
  have "concat (map (\<lambda>lo. muts (listener lo)) (get_or_empty s e)) =
      concat (map (\<lambda>lo. muts f) (filter (\<lambda>lo. listener lo = f) (get_or_empty s e)))"
    by (rule concat_calls_of_one [OF others])
  with one self have cc: "concat (map (\<lambda>lo. muts (listener lo)) (get_or_empty s e)) = [c]"
    by simp
  have "listeners (snd (emit (with_calls cb muts) e args s)) =
      listeners (perform_all cb (concat (map (\<lambda>lo. muts (listener lo)) (get_or_empty s e))) ?pre)"
    unfolding emit_def Let_def
    by (rule mutations_are_applied [where cb = cb and args = args, OF keeps returns muts])
  with cc have "listeners (snd (emit (with_calls cb muts) e args s)) =
      listeners (perform cb c ?pre)"
    by simp
  then show "get_or_empty (snd (emit (with_calls cb muts) e args s)) e =
      get_or_empty (perform cb c ?pre) e"
    by (rule get_or_empty_cong)
  have "filter (\<lambda>lo. listener lo = f)
       (filter (\<lambda>lo. once_opt lo \<noteq> Some True) (get_or_empty s e)) =
      filter (\<lambda>lo. once_opt lo \<noteq> Some True)
       (filter (\<lambda>lo. listener lo = f) (get_or_empty s e))"
    by (simp add: conj_commute)
  with one shot show "filter (\<lambda>lo. listener lo = f)
       (filter (\<lambda>lo. once_opt lo \<noteq> Some True) (get_or_empty s e)) = []"
    by simp
qed

text \<open>
  C7: \<^verbatim>\<open>emit\<close> takes the one-shot records of the snapshot out of the stored
  sequence before it calls any callback: every callback of the dispatch, the first one
  included, finds the stored sequence without them (the callbacks \<open>observe e\<close> return
  what they find). So a one-shot callback \<open>f\<close> that subscribes itself again while
  it runs, with \<^verbatim>\<open>once\<close> or with \<^verbatim>\<open>on\<close>, is stored after the \<^verbatim>\<open>emit\<close> by
  exactly the record of that new subscription: it is inserted into the sequence
  without the one-shot records, and it is the only record that holds \<open>f\<close>. Here
  \<open>f\<close> held one record of the event, no other callback subscribes or unsubscribes,
  and no callback throws.
\<close>

theorem once_removed_before_dispatch:
  "fst (emit (observe e) e args' s) =
     Inr (map (\<lambda>lo. filter (\<lambda>lo. once_opt lo \<noteq> Some True) (get_or_empty s e))
       (get_or_empty s e)) \<and>
   (filter (\<lambda>lo. listener lo = f) (get_or_empty s e) = [lo] \<and> once_opt lo = Some True \<and>
    (\<forall>l. l \<noteq> f \<longrightarrow> muts l = []) \<and>
    (\<forall>l w. listeners (snd (cb l args w)) = listeners w) \<and>
    (\<forall>l w. \<exists>r. fst (cb l args w) = Inr r) \<longrightarrow>
      (muts f = [Once e f ord] \<longrightarrow>
         get_or_empty (snd (emit (with_calls cb muts) e args s)) e =
           insertOrderSorted (filter (\<lambda>lo. once_opt lo \<noteq> Some True) (get_or_empty s e))
             (rec_once f (default_order ord)) \<and>
         filter (\<lambda>lo. listener lo = f) (get_or_empty (snd (emit (with_calls cb muts) e args s)) e) =
           [rec_once f (default_order ord)]) \<and>
      (muts f = [On e f ord] \<longrightarrow>
         get_or_empty (snd (emit (with_calls cb muts) e args s)) e =
           insertOrderSorted (filter (\<lambda>lo. once_opt lo \<noteq> Some True) (get_or_empty s e))
             (rec_on f (default_order ord)) \<and>
         filter (\<lambda>lo. listener lo = f) (get_or_empty (snd (emit (with_calls cb muts) e args s)) e) =
           [rec_on f (default_order ord)]))"
proof (intro conjI impI)
  show "fst (emit (observe e) e args' s) =
     Inr (map (\<lambda>lo. filter (\<lambda>lo. once_opt lo \<noteq> Some True) (get_or_empty s e))
       (get_or_empty s e))"
    by (simp add: emit_def Let_def map_listeners_observe get_or_empty_def)
next
  let ?pre = "s\<lparr>listeners := (listeners s)(e \<mapsto>
       filter (\<lambda>lo. once_opt lo \<noteq> Some True) (get_or_empty s e))\<rparr>"
  let ?ys = "filter (\<lambda>lo. once_opt lo \<noteq> Some True) (get_or_empty s e)"
  assume h: "filter (\<lambda>lo. listener lo = f) (get_or_empty s e) = [lo] \<and> once_opt lo = Some True \<and>
    (\<forall>l. l \<noteq> f \<longrightarrow> muts l = []) \<and>
    (\<forall>l w. listeners (snd (cb l args w)) = listeners w) \<and>
    (\<forall>l w. \<exists>r. fst (cb l args w) = Inr r)"
  then have one: "filter (\<lambda>lo. listener lo = f) (get_or_empty s e) = [lo]"
    and shot: "once_opt lo = Some True"
    and others: "\<forall>l. l \<noteq> f \<longrightarrow> muts l = []"
    and keeps: "\<forall>l w. listeners (snd (cb l args w)) = listeners w"
    and returns: "\<forall>l w. \<exists>r. fst (cb l args w) = Inr r"
    by blast+
  have pre: "get_or_empty ?pre e = ?ys" by (simp add: get_or_empty_def)
  {
    assume m: "muts f = [Once e f ord]"
    have a: "get_or_empty (snd (emit (with_calls cb muts) e args s)) e =
        get_or_empty (perform cb (Once e f ord) ?pre) e"
      by (rule resubscribed_once(1)
          [where cb = cb and args = args, OF one shot m _ others keeps returns]) simp
    have b: "filter (\<lambda>lo. listener lo = f) ?ys = []"
      by (rule resubscribed_once(2)
          [where cb = cb and args = args, OF one shot m _ others keeps returns]) simp
    from a show g: "get_or_empty (snd (emit (with_calls cb muts) e args s)) e =
        insertOrderSorted ?ys (rec_once f (default_order ord))"
      by (simp only: perform.simps get_once pre refl if_True rec_once_def)
    show "filter (\<lambda>lo. listener lo = f) (get_or_empty (snd (emit (with_calls cb muts) e args s)) e) =
        [rec_once f (default_order ord)]"
      unfolding g using b
      by (simp add: insertOrderSorted_eq rec_once_def filter_takeWhile_dropWhile_empty)
  }
  {
    assume m: "muts f = [On e f ord]"
    have a: "get_or_empty (snd (emit (with_calls cb muts) e args s)) e =
        get_or_empty (perform cb (On e f ord) ?pre) e"
      by (rule resubscribed_once(1)
          [where cb = cb and args = args, OF one shot m _ others keeps returns]) simp
    have b: "filter (\<lambda>lo. listener lo = f) ?ys = []"
      by (rule resubscribed_once(2)
          [where cb = cb and args = args, OF one shot m _ others keeps returns]) simp
    from a show g: "get_or_empty (snd (emit (with_calls cb muts) e args s)) e =
        insertOrderSorted ?ys (rec_on f (default_order ord))"
      by (simp only: perform.simps get_on pre refl if_True rec_on_def)
    show "filter (\<lambda>lo. listener lo = f) (get_or_empty (snd (emit (with_calls cb muts) e args s)) e) =
        [rec_on f (default_order ord)]"
      unfolding g using b
      by (simp add: insertOrderSorted_eq rec_on_def filter_takeWhile_dropWhile_empty)
  }
qed

theorem once_removed_before_dispatch_witness:
  "get_or_empty once_and_on ''x'' = [rec_once 0 0, rec_on 1 1] \<and>
   fst (emit (observe ''x'') ''x'' () once_and_on) = Inr [[rec_on 1 1], [rec_on 1 1]] \<and>
   fst (emit (with_calls plus_one_times_two resubscribes_itself) ''x'' 5 once_and_on) = Inr [6, 10] \<and>
   get_or_empty (snd (emit (with_calls plus_one_times_two resubscribes_itself) ''x'' 5 once_and_on)) ''x''
     = [rec_once 0 0, rec_on 1 1] \<and>
   filter (\<lambda>lo. listener lo = 0)
     (get_or_empty (snd (emit (with_calls plus_one_times_two resubscribes_itself) ''x'' 5 once_and_on)) ''x'')
     = [rec_once 0 0] \<and>
   get_or_empty (snd (emit (with_calls plus_one_times_two (\<lambda>l. if l = 0 then [On ''x'' 0 None] else []))
     ''x'' 5 once_and_on)) ''x'' = [rec_on 0 0, rec_on 1 1]"
proof -
  have g: "get_or_empty once_and_on ''x'' = [rec_once 0 0, rec_on 1 1]"
    by (simp add: once_and_on_def eval_defs)
  have k: "\<forall>l (w :: (string, unit) state). listeners (snd (plus_one_times_two l 5 w)) = listeners w"
    by (simp add: plus_one_times_two_def)
  have r: "\<forall>l (w :: (string, unit) state). \<exists>r. fst (plus_one_times_two l 5 w) = Inr r"
    by (simp add: plus_one_times_two_def)
  have one: "filter (\<lambda>lo. listener lo = 0) (get_or_empty once_and_on ''x'') = [rec_once 0 0]"
    by (simp add: g rec_once_def rec_on_def)
  have shot: "once_opt (rec_once 0 0) = Some True" by (simp add: rec_once_def)
  have ys: "filter (\<lambda>lo. once_opt lo \<noteq> Some True) (get_or_empty once_and_on ''x'') = [rec_on 1 1]"
    by (simp add: g rec_once_def rec_on_def)
  note t1 = once_removed_before_dispatch
    [of "''x''" "()" once_and_on 0 "rec_once 0 0" resubscribes_itself plus_one_times_two 5 None]
  note t2 = once_removed_before_dispatch
    [of "''x''" "()" once_and_on 0 "rec_once 0 0" "\<lambda>l. if l = 0 then [On ''x'' 0 None] else []"
      plus_one_times_two 5 None]
  from t1 have a: "fst (emit (observe ''x'') ''x'' () once_and_on) = Inr [[rec_on 1 1], [rec_on 1 1]]"
    by (simp add: ys) (simp add: g)
  have b: "fst (emit (with_calls plus_one_times_two resubscribes_itself) ''x'' 5 once_and_on) = Inr [6, 10]"
    by (simp add: emit_def Let_def g with_calls_def resubscribes_itself_def plus_one_times_two_def
        rec_once_def rec_on_def)
  have h1: "filter (\<lambda>lo. listener lo = 0) (get_or_empty once_and_on ''x'') = [rec_once 0 0] \<and>
      once_opt (rec_once 0 0) = Some True \<and>
      (\<forall>l. l \<noteq> 0 \<longrightarrow> resubscribes_itself l = []) \<and>
      (\<forall>l (w :: (string, unit) state). listeners (snd (plus_one_times_two l 5 w)) = listeners w) \<and>
      (\<forall>l (w :: (string, unit) state). \<exists>r. fst (plus_one_times_two l 5 w) = Inr r)"
    using one shot k r by (simp add: resubscribes_itself_def)
  have m1: "resubscribes_itself 0 = [Once ''x'' 0 None]"
    by (simp add: resubscribes_itself_def)
  have c: "get_or_empty (snd (emit (with_calls plus_one_times_two resubscribes_itself) ''x'' 5 once_and_on)) ''x''
      = [rec_once 0 0, rec_on 1 1]"
    and d: "filter (\<lambda>lo. listener lo = 0)
      (get_or_empty (snd (emit (with_calls plus_one_times_two resubscribes_itself) ''x'' 5 once_and_on)) ''x'')
      = [rec_once 0 0]"
    using t1 [THEN conjunct2, THEN mp, OF h1, THEN conjunct1, THEN mp, OF m1]
    by (simp_all add: ys insertOrderSorted_def splice_arr_def Let_def default_order_def
        rec_on_def rec_once_def)
  have h2: "filter (\<lambda>lo. listener lo = 0) (get_or_empty once_and_on ''x'') = [rec_once 0 0] \<and>
      once_opt (rec_once 0 0) = Some True \<and>
      (\<forall>l. l \<noteq> 0 \<longrightarrow> (if l = 0 then [On ''x'' 0 None :: (string, int) call] else []) = []) \<and>
      (\<forall>l (w :: (string, unit) state). listeners (snd (plus_one_times_two l 5 w)) = listeners w) \<and>
      (\<forall>l (w :: (string, unit) state). \<exists>r. fst (plus_one_times_two l 5 w) = Inr r)"
    using one shot k r by simp
  have m2: "(if (0 :: nat) = 0 then [On ''x'' 0 None :: (string, int) call] else []) = [On ''x'' 0 None]"
    by simp
  have e: "get_or_empty (snd (emit (with_calls plus_one_times_two (\<lambda>l. if l = 0 then [On ''x'' 0 None] else []))
      ''x'' 5 once_and_on)) ''x'' = [rec_on 0 0, rec_on 1 1]"
    using t2 [THEN conjunct2, THEN mp, OF h2, THEN conjunct2, THEN mp, OF m2]
    by (simp add: ys insertOrderSorted_def splice_arr_def Let_def default_order_def
        rec_on_def rec_once_def)
  from g a b c d e show ?thesis by (intro conjI)
qed

section \<open>Frame\<close>

lemma listeners_perform_local:
  assumes "is_mutation c" and "listeners s e' = listeners t e'"
  shows "listeners (perform cb c s) e' = listeners (perform cb c t) e'"
proof (cases c)
  case (On event f ord)
  show ?thesis
  proof (cases "e' = event")
    case True
    with assms(2) have "listeners s event = listeners t event" by simp
    with On True show ?thesis by (simp add: listeners_on)
  next
    case False
    with On assms(2) show ?thesis by (simp add: listeners_on)
  qed
next
  case (Once event f ord)
  show ?thesis
  proof (cases "e' = event")
    case True
    with assms(2) have "listeners s event = listeners t event" by simp
    with Once True show ?thesis by (simp add: listeners_once)
  next
    case False
    with Once assms(2) show ?thesis by (simp add: listeners_once)
  qed
next
  case (Off event f)
  show ?thesis
  proof (cases "e' = event")
    case True
    with assms(2) have "listeners s event = listeners t event" by simp
    with Off True show ?thesis by (simp add: listeners_off split: option.splits)
  next
    case False
    with Off assms(2) show ?thesis by (simp add: listeners_off split: option.splits)
  qed
next
  case (Emit event args)
  with assms(1) show ?thesis by simp
qed

lemma listeners_perform_all_local:
  "\<forall>c \<in> set cs. is_mutation c \<Longrightarrow> listeners s e' = listeners t e' \<Longrightarrow>
     listeners (perform_all cb cs s) e' = listeners (perform_all cb cs t) e'"
proof (induction cs arbitrary: s t)
  case Nil
  then show ?case by simp
next
  case (Cons c cs)
  from Cons.prems have m: "is_mutation c" and ms: "\<forall>c \<in> set cs. is_mutation c"
    and l: "listeners s e' = listeners t e'" by simp_all
  have "listeners (perform cb c s) e' = listeners (perform cb c t) e'"
    by (rule listeners_perform_local [OF m l])
  from Cons.IH [OF ms this] show ?case by simp
qed

lemma emit_with_calls_other:
  assumes "e' \<noteq> e"
    and muts: "\<forall>l. \<forall>c \<in> set (muts l). is_mutation c"
    and keeps: "\<forall>l w. listeners (snd (cb l args w)) = listeners w"
    and returns: "\<forall>l w. \<exists>r. fst (cb l args w) = Inr r"
  shows "listeners (snd (emit (with_calls cb muts) e args s)) e' =
     listeners (perform_all cb (concat (map (\<lambda>lo. muts (listener lo)) (get_or_empty s e))) s) e'"
proof -
  let ?pre = "s\<lparr>listeners := (listeners s)(e \<mapsto>
      filter (\<lambda>lo. once_opt lo \<noteq> Some True) (get_or_empty s e))\<rparr>"
  let ?cs = "concat (map (\<lambda>lo. muts (listener lo)) (get_or_empty s e))"
  have a: "listeners (snd (emit (with_calls cb muts) e args s)) = listeners (perform_all cb ?cs ?pre)"
    unfolding emit_def Let_def
    by (rule mutations_are_applied [where cb = cb and args = args, OF keeps returns muts])
  from muts have m: "\<forall>c \<in> set ?cs. is_mutation c" by auto
  from assms(1) have p: "listeners ?pre e' = listeners s e'" by simp
  have "listeners (perform_all cb ?cs ?pre) e' = listeners (perform_all cb ?cs s) e'"
    by (rule listeners_perform_all_local [OF m p])
  with a show ?thesis by simp
qed

text \<open>
  C5: an operation on event \<open>e\<close> leaves the sequence stored for every other event
  \<open>e'\<close> as it was. \<^verbatim>\<open>on\<close>, \<^verbatim>\<open>once\<close> and \<^verbatim>\<open>off\<close> change nothing but the entry of
  \<open>e\<close> (the rest of the state, \<open>world\<close>, is untouched as well). \<^verbatim>\<open>emit\<close> itself
  writes the entry of \<open>e\<close> only; the callbacks it runs are code of the client, so the
  entry of \<open>e'\<close> after \<^verbatim>\<open>emit\<close> is the one before it whenever no callback changes it,
  and when the callbacks subscribe and unsubscribe while they run, it is the entry
  their calls alone make of the one before (no callback throwing): \<^verbatim>\<open>emit\<close> adds
  nothing of its own.
\<close>

theorem other_events_untouched:
  "e' \<noteq> e \<longrightarrow>
     listeners (on e f ord s) e' = listeners s e' \<and> world (on e f ord s) = world s \<and>
     listeners (once e f ord s) e' = listeners s e' \<and> world (once e f ord s) = world s \<and>
     listeners (off e f s) e' = listeners s e' \<and> world (off e f s) = world s \<and>
     ((\<forall>l w. listeners (snd (cb l args w)) e' = listeners w e') \<longrightarrow>
        listeners (snd (emit cb e args s)) e' = listeners s e') \<and>
     ((\<forall>l. \<forall>c \<in> set (muts l). is_mutation c) \<and>
      (\<forall>l w. listeners (snd (cb l args w)) = listeners w) \<and>
      (\<forall>l w. \<exists>r. fst (cb l args w) = Inr r) \<longrightarrow>
        listeners (snd (emit (with_calls cb muts) e args s)) e' =
        listeners (perform_all cb
          (concat (map (\<lambda>lo. muts (listener lo)) (get_or_empty s e))) s) e')"
proof (intro impI conjI)
  assume ne: "e' \<noteq> e"
  then show "listeners (on e f ord s) e' = listeners s e'" by (rule listeners_on_other)
  from ne show "listeners (once e f ord s) e' = listeners s e'" by (rule listeners_once_other)
  from ne show "listeners (off e f s) e' = listeners s e'" by (rule listeners_off_other)
  show "world (on e f ord s) = world s" and "world (once e f ord s) = world s"
    and "world (off e f s) = world s" by simp_all
  {
    assume k: "\<forall>l w. listeners (snd (cb l args w)) e' = listeners w e'"
    show "listeners (snd (emit cb e args s)) e' = listeners s e'"
      by (rule emit_other [where cb = cb and args = args, OF ne k])
  }
  {
    assume "(\<forall>l. \<forall>c \<in> set (muts l). is_mutation c) \<and>
      (\<forall>l w. listeners (snd (cb l args w)) = listeners w) \<and>
      (\<forall>l w. \<exists>r. fst (cb l args w) = Inr r)"
    then have m: "\<forall>l. \<forall>c \<in> set (muts l). is_mutation c"
      and k: "\<forall>l w. listeners (snd (cb l args w)) = listeners w"
      and r: "\<forall>l w. \<exists>r. fst (cb l args w) = Inr r" by blast+
    show "listeners (snd (emit (with_calls cb muts) e args s)) e' =
        listeners (perform_all cb
          (concat (map (\<lambda>lo. muts (listener lo)) (get_or_empty s e))) s) e'"
      by (rule emit_with_calls_other [where cb = cb and args = args, OF ne m k r])
  }
qed

theorem other_events_untouched_witness:
  "listeners (on ''y'' 3 None three_subs) ''x'' = Some [rec_on 7 0, rec_on 8 1, rec_on 7 2] \<and>
   listeners (once ''y'' 3 None three_subs) ''x'' = Some [rec_on 7 0, rec_on 8 1, rec_on 7 2] \<and>
   listeners (off ''y'' 7 three_subs) ''x'' = Some [rec_on 7 0, rec_on 8 1, rec_on 7 2] \<and>
   listeners (snd (emit reentrant ''x'' 5 (once ''x'' 0 None (on ''y'' 1 None (new_hooks ()))))) ''y''
     = Some [rec_on 1 0] \<and>
   listeners (snd (emit (with_calls plus_one_times_two subscribes_elsewhere) ''x'' 5 two_subs)) ''y''
     = listeners (on ''y'' 9 None two_subs) ''y''"
proof -
  have x: "listeners three_subs ''x'' = Some [rec_on 7 0, rec_on 8 1, rec_on 7 2]"
    by (simp add: three_subs_def eval_defs)
  have y: "listeners (once ''x'' 0 None (on ''y'' 1 None (new_hooks ()))) ''y'' = Some [rec_on 1 0]"
    by (simp add: eval_defs)
  have r: "\<forall>l w. listeners (snd (reentrant l 5 w)) ''y'' = listeners w ''y''"
    by (simp add: reentrant_other)
  have ne: "''y'' \<noteq> ''x''" by simp
  have ne': "''x'' \<noteq> ''y''" by simp
  note t1 = other_events_untouched
    [where e' = "''x''" and e = "''y''" and s = three_subs and f = 3 and ord = None, THEN mp, OF ne']
  note t2 = other_events_untouched
    [where e' = "''x''" and e = "''y''" and s = three_subs and f = 7, THEN mp, OF ne']
  note t3 = other_events_untouched
    [where e' = "''y''" and e = "''x''" and cb = reentrant and args = 5
      and s = "once ''x'' 0 None (on ''y'' 1 None (new_hooks ()))", THEN mp, OF ne]
  note t4 = other_events_untouched
    [where e' = "''y''" and e = "''x''" and cb = plus_one_times_two and args = 5
      and s = two_subs and muts = subscribes_elsewhere, THEN mp, OF ne]
  from t1 [THEN conjunct1] x have a: "listeners (on ''y'' 3 None three_subs) ''x'' =
      Some [rec_on 7 0, rec_on 8 1, rec_on 7 2]" by simp
  from t1 [THEN conjunct2, THEN conjunct2, THEN conjunct1] x
  have b: "listeners (once ''y'' 3 None three_subs) ''x'' =
      Some [rec_on 7 0, rec_on 8 1, rec_on 7 2]" by simp
  from t2 [THEN conjunct2, THEN conjunct2, THEN conjunct2, THEN conjunct2, THEN conjunct1] x
  have c: "listeners (off ''y'' 7 three_subs) ''x'' =
      Some [rec_on 7 0, rec_on 8 1, rec_on 7 2]" by simp
  from t3 [THEN conjunct2, THEN conjunct2, THEN conjunct2, THEN conjunct2, THEN conjunct2,
      THEN conjunct2, THEN conjunct1, THEN mp, OF r] y
  have d: "listeners (snd (emit reentrant ''x'' 5
      (once ''x'' 0 None (on ''y'' 1 None (new_hooks ()))))) ''y'' = Some [rec_on 1 0]"
    by simp
  have m: "\<forall>l. \<forall>c \<in> set (subscribes_elsewhere l). is_mutation c"
    by (simp add: subscribes_elsewhere_def)
  have k: "\<forall>l (w :: (string, unit) state). listeners (snd (plus_one_times_two l 5 w)) = listeners w"
    by (simp add: plus_one_times_two_def)
  have rr: "\<forall>l (w :: (string, unit) state). \<exists>r. fst (plus_one_times_two l 5 w) = Inr r"
    by (simp add: plus_one_times_two_def)
  have g: "get_or_empty two_subs ''x'' = [rec_on 0 0, rec_on 1 1]"
    by (simp add: two_subs_def eval_defs)
  from m k rr have h: "(\<forall>l. \<forall>c \<in> set (subscribes_elsewhere l). is_mutation c) \<and>
      (\<forall>l (w :: (string, unit) state). listeners (snd (plus_one_times_two l 5 w)) = listeners w) \<and>
      (\<forall>l (w :: (string, unit) state). \<exists>r. fst (plus_one_times_two l 5 w) = Inr r)"
    by (intro conjI)
  have "listeners (snd (emit (with_calls plus_one_times_two subscribes_elsewhere) ''x'' 5 two_subs)) ''y'' =
      listeners (perform_all plus_one_times_two
        (concat (map (\<lambda>lo. subscribes_elsewhere (listener lo)) (get_or_empty two_subs ''x'')))
        two_subs) ''y''"
    by (rule t4 [THEN conjunct2, THEN conjunct2, THEN conjunct2, THEN conjunct2, THEN conjunct2,
      THEN conjunct2, THEN conjunct2, THEN mp, OF h])
  then have e: "listeners (snd (emit (with_calls plus_one_times_two subscribes_elsewhere) ''x'' 5 two_subs)) ''y''
     = listeners (on ''y'' 9 None two_subs) ''y''"
    by (simp add: g subscribes_elsewhere_def rec_on_def)
  from a b c d e show ?thesis by (intro conjI)
qed

end
